theory Spec2Isabelle
  imports Main "HOL-Library.AList"
begin

section \<open>The streaming JSON parser of \<^verbatim>\<open>assignment.py\<close>\<close>

text \<open>
  \<^verbatim>\<open>StreamingJsonParser\<close> keeps a result dictionary that it mutates in place, and a
  stack of frames \<^verbatim>\<open>(current_object, current_key)\<close> whose first components are
  references into that same result. A nested dictionary is stored in its parent and pushed
  on the stack at once, and later writes through the stack must be seen through the parent,
  so the model has an explicit store: every dictionary the parser creates lives in
  \<open>heap\<close>, a list indexed by address, and is referred to by its index. Address \<open>0\<close> is
  \<^verbatim>\<open>self.partial_json\<close>, created by the constructor.

  A dictionary slot holds a \<^verbatim>\<open>str\<close> or a reference to a dictionary; these are the only
  two kinds of value the source ever stores (\<^verbatim>\<open>self.current_string\<close> and \<^verbatim>\<open>new_obj\<close>).
  A dictionary is an association list in insertion order; \<^verbatim>\<open>d[k] = v\<close> is
  \<open>AList.update\<close>, which overwrites a present key in place and appends an absent one,
  as Python does.
\<close>

datatype pyvalue = Str string | Ref nat

type_synonym pydict = "(string \<times> pyvalue) list"

type_synonym frame = "nat \<times> string option"

text \<open>
  The fields of the class. The stack is kept top first: \<^verbatim>\<open>self.stack[-1]\<close> is the head
  of the list, \<^verbatim>\<open>append\<close> is \<open>#\<close>, \<^verbatim>\<open>pop()\<close> is \<open>tl\<close>, and the bottom frame is the
  last element.
\<close>

record parser =
  buffer :: string
  heap :: "pydict list"
  stack :: "frame list"
  in_string :: bool
  escape :: bool
  current_string :: string
  expecting_colon :: bool

text \<open>\<^verbatim>\<open>__init__\<close>: an empty result dictionary at address 0 and one frame for it.\<close>

definition init :: parser where
  "init = \<lparr>buffer = [], heap = [[]], stack = [(0, None)], in_string = False,
           escape = False, current_string = [], expecting_colon = False\<rparr>"

text \<open>\<^verbatim>\<open>current_obj[current_key] = v\<close> for the dictionary at address \<open>a\<close>.\<close>

definition setitem :: "pydict list \<Rightarrow> nat \<Rightarrow> string \<Rightarrow> pyvalue \<Rightarrow> pydict list" where
  "setitem h a k v = h[a := AList.update k v (h ! a)]"

text \<open>
  \<^verbatim>\<open>str.isspace\<close> on the one-byte characters of HOL. The branch it guards does the same
  as the final \<^verbatim>\<open>else\<close>, so nothing depends on the exact set.
\<close>

definition isspace :: "char \<Rightarrow> bool" where
  "isspace c = (c \<in> set [CHR 0x09, CHR 0x0A, CHR 0x0B, CHR 0x0C, CHR 0x0D, CHR 0x1C,
                          CHR 0x1D, CHR 0x1E, CHR 0x1F, CHR 0x20, CHR 0x85, CHR 0xA0])"

abbreviation dquote :: char where "dquote \<equiv> CHR 0x22"

abbreviation backslash :: char where "backslash \<equiv> CHR 0x5C"

text \<open>
  One iteration of the \<^verbatim>\<open>while\<close> loop of \<^verbatim>\<open>_parse\<close> on the character \<open>c\<close>. Every
  branch of the source ends in \<^verbatim>\<open>i += 1\<close>, so the index is not part of the state. The
  only operation of the body that can raise is \<^verbatim>\<open>self.stack[-1]\<close> on an empty stack
  (\<^verbatim>\<open>IndexError\<close>); the result \<open>None\<close> stands for that exception. The test at the
  object-open token is guarded by \<^verbatim>\<open>len(self.stack) > 0\<close> and cannot raise.
\<close>

definition step :: "char \<Rightarrow> parser \<Rightarrow> parser option" where
  "step c p =
    (if in_string p then
       (if escape p then
          Some (p\<lparr>current_string := current_string p @ [c], escape := False\<rparr>)
        else if c = backslash then
          Some (p\<lparr>escape := True\<rparr>)
        else if c = dquote then
          (case stack p of
             [] \<Rightarrow> None
           | (current_obj, current_key) # rest \<Rightarrow>
               if expecting_colon p then
                 Some (p\<lparr>in_string := False,
                         stack := (current_obj, Some (current_string p)) # rest,
                         expecting_colon := False,
                         current_string := []\<rparr>)
               else
                 (case current_key of
                    None \<Rightarrow> Some (p\<lparr>in_string := False, current_string := []\<rparr>)
                  | Some k \<Rightarrow>
                      Some (p\<lparr>in_string := False,
                              heap := setitem (heap p) current_obj k (Str (current_string p)),
                              stack := (current_obj, None) # rest,
                              current_string := []\<rparr>)))
        else
          Some (p\<lparr>current_string := current_string p @ [c]\<rparr>))
     else if c = CHR ''{'' then
       (case stack p of
          (current_obj, Some current_key) # rest \<Rightarrow>
            (let new_obj = length (heap p);
                 h = heap p @ [[]]
             in Some (p\<lparr>heap := setitem h current_obj current_key (Ref new_obj),
                        stack := (new_obj, None) # (current_obj, None) # rest\<rparr>))
        | _ \<Rightarrow> Some p)
     else if c = CHR ''}'' then
       (if length (stack p) > 1 then Some (p\<lparr>stack := tl (stack p)\<rparr>) else Some p)
     else if c = dquote then
       (case stack p of
          [] \<Rightarrow> None
        | (current_obj, current_key) # rest \<Rightarrow>
            if current_key = None \<and> \<not> expecting_colon p then
              Some (p\<lparr>in_string := True, expecting_colon := True\<rparr>)
            else
              Some (p\<lparr>in_string := True\<rparr>))
     else if c = CHR '':'' then Some p
     else if c = CHR '','' then Some p
     else if isspace c then Some p
     else Some p)"

text \<open>The \<^verbatim>\<open>while i < len(self.buffer)\<close> loop: the characters of the buffer, in order.\<close>

fun parse_loop :: "string \<Rightarrow> parser \<Rightarrow> parser option" where
  "parse_loop [] p = Some p"
| "parse_loop (c # cs) p = Option.bind (step c p) (parse_loop cs)"

text \<open>
  The block after the loop (``handle partial string at the end''): a value string still
  open is stored under the pending key of the top frame. Here too \<^verbatim>\<open>self.stack[-1]\<close>
  raises on an empty stack.
\<close>

definition partial_value :: "parser \<Rightarrow> parser option" where
  "partial_value p =
    (if in_string p \<and> \<not> expecting_colon p then
       (case stack p of
          [] \<Rightarrow> None
        | (current_obj, current_key) # rest \<Rightarrow>
            (case current_key of
               None \<Rightarrow> Some p
             | Some k \<Rightarrow> Some (p\<lparr>heap := setitem (heap p) current_obj k (Str (current_string p))\<rparr>)))
     else Some p)"

text \<open>\<^verbatim>\<open>_parse\<close>: the loop over the buffer, the partial value, and the buffer cleared.\<close>

definition parse :: "parser \<Rightarrow> parser option" where
  "parse p =
    Option.bind (parse_loop (buffer p) p)
      (\<lambda>q. Option.bind (partial_value q) (\<lambda>r. Some (r\<lparr>buffer := []\<rparr>)))"

text \<open>
  \<^verbatim>\<open>consume\<close> appends the chunk to the buffer, parses, and returns \<^verbatim>\<open>self\<close>: the
  parser after the call.
\<close>

definition consume :: "parser \<Rightarrow> string \<Rightarrow> parser option" where
  "consume p chunk = parse (p\<lparr>buffer := buffer p @ chunk\<rparr>)"

text \<open>
  \<^verbatim>\<open>get\<close> returns \<^verbatim>\<open>self.partial_json\<close>, the dictionary at address 0. What the caller
  then sees is the tree read off the store from there, \<open>reify\<close>. Reading follows
  references, so it takes a bound on the depth; no chain of distinct dictionaries is longer
  than the store. The result is \<open>None\<close> only if that bound is exceeded or a reference
  points outside the store.
\<close>

datatype json = JStr string | JObj "(string \<times> json) list"

fun reify :: "nat \<Rightarrow> pydict list \<Rightarrow> pyvalue \<Rightarrow> json option" where
  "reify n h (Str s) = Some (JStr s)"
| "reify 0 h (Ref a) = None"
| "reify (Suc n) h (Ref a) =
     (if a < length h
      then map_option JObj (those (map (\<lambda>(k, v). map_option (Pair k) (reify n h v)) (h ! a)))
      else None)"

definition get :: "parser \<Rightarrow> json option" where
  "get p = reify (length (heap p)) (heap p) (Ref 0)"

text \<open>
  The effect of one call on the parsing state, without the buffer: the loop over the
  characters, then the partial value. \<open>consume\<close> is \<open>run\<close> on the buffered characters
  followed by the chunk (lemma \<open>consume_run\<close>).
\<close>

definition run :: "string \<Rightarrow> parser \<Rightarrow> parser option" where
  "run cs p = Option.bind (parse_loop cs p) partial_value"

text \<open>The parsers a caller can hold: the fresh one, and any later result of \<^verbatim>\<open>consume\<close>.\<close>

inductive reachable :: "parser \<Rightarrow> bool" where
  fresh: "reachable init"
| consumed: "reachable p \<Longrightarrow> consume p chunk = Some p' \<Longrightarrow> reachable p'"

section \<open>Well-formed parsers\<close>

text \<open>
  \<open>child h a b\<close>: the dictionary at \<open>a\<close> holds a reference to the dictionary at \<open>b\<close>.
\<close>

definition child :: "pydict list \<Rightarrow> nat \<Rightarrow> nat \<Rightarrow> bool" where
  "child h a b = (a < length h \<and> Ref b \<in> snd ` set (h ! a))"

text \<open>
  A dictionary at address \<open>a\<close> of a store of size \<open>n\<close>: its keys are distinct, and each
  reference it holds is to a dictionary allocated later than itself.
\<close>

definition dict_ok :: "nat \<Rightarrow> nat \<Rightarrow> pydict \<Rightarrow> bool" where
  "dict_ok n a d =
     (distinct (map fst d) \<and>
      (\<forall>v \<in> snd ` set d. case v of Str s \<Rightarrow> True | Ref b \<Rightarrow> a < b \<and> b < n))"

definition heap_ok :: "pydict list \<Rightarrow> bool" where
  "heap_ok h = (h \<noteq> [] \<and> (\<forall>a < length h. dict_ok (length h) a (h ! a)))"

text \<open>No dictionary is stored in two dictionaries: the store holds trees.\<close>

definition single_parent :: "pydict list \<Rightarrow> bool" where
  "single_parent h = (\<forall>a a' b. child h a b \<and> child h a' b \<longrightarrow> a = a')"

text \<open>
  The frames, read from the bottom, own the dictionaries along one path of the result:
  the bottom frame owns address 0 and every other frame owns a child of the frame below.
\<close>

fun path_ok :: "pydict list \<Rightarrow> nat list \<Rightarrow> bool" where
  "path_ok h [] = False"
| "path_ok h [a] = (a = 0)"
| "path_ok h (b # a # rest) = (child h a b \<and> path_ok h (a # rest))"

definition stack_ok :: "pydict list \<Rightarrow> frame list \<Rightarrow> bool" where
  "stack_ok h st = path_ok h (map fst st)"

text \<open>
  Inside a string, \<^verbatim>\<open>expecting_colon\<close> says that the top frame has no pending key;
  outside, the three string fields are at rest.
\<close>

definition flags_ok :: "parser \<Rightarrow> bool" where
  "flags_ok p =
     (if in_string p then expecting_colon p = (snd (hd (stack p)) = None)
      else \<not> expecting_colon p \<and> \<not> escape p \<and> current_string p = [])"

definition wf :: "parser \<Rightarrow> bool" where
  "wf p = (heap_ok (heap p) \<and> single_parent (heap p) \<and> stack_ok (heap p) (stack p) \<and> flags_ok p)"

text \<open>\<open>at_depth h d a\<close>: the dictionary at \<open>a\<close> is nested \<open>d\<close> levels below the root.\<close>

inductive at_depth :: "pydict list \<Rightarrow> nat \<Rightarrow> nat \<Rightarrow> bool" for h where
  root: "at_depth h 0 0"
| nested: "at_depth h d a \<Longrightarrow> child h a b \<Longrightarrow> at_depth h (Suc d) b"

text \<open>
  The objects of a snapshot, the outermost first, and \<open>has_entry j k v\<close>: some object of
  \<open>j\<close> has the value \<open>v\<close> under the key \<open>k\<close>.
\<close>

fun objects :: "json \<Rightarrow> (string \<times> json) list list" where
  "objects (JStr s) = []"
| "objects (JObj kvs) = kvs # concat (map (\<lambda>(k, v). objects v) kvs)"

definition has_entry :: "json \<Rightarrow> string \<Rightarrow> json \<Rightarrow> bool" where
  "has_entry j k v = (\<exists>kvs \<in> set (objects j). (k, v) \<in> set kvs)"

text \<open>
  What a chunk adds to a string in flight, for a chunk that does not close it: the
  characters appended to \<^verbatim>\<open>current_string\<close> and the final \<^verbatim>\<open>escape\<close> flag, given the
  flag at the start. The result is \<open>None\<close> when the chunk holds the closing quote (a
  double quote that no backslash precedes).
\<close>

fun string_fragment :: "bool \<Rightarrow> string \<Rightarrow> (string \<times> bool) option" where
  "string_fragment esc [] = Some ([], esc)"
| "string_fragment True (c # cs) = map_option (\<lambda>(s, e). (c # s, e)) (string_fragment False cs)"
| "string_fragment False (c # cs) =
     (if c = backslash then string_fragment True cs
      else if c = dquote then None
      else map_option (\<lambda>(s, e). (c # s, e)) (string_fragment False cs))"

section \<open>Chunk boundaries\<close>

lemma step_buffer:
  "step c (p\<lparr>buffer := b\<rparr>) = map_option (\<lambda>q. q\<lparr>buffer := b\<rparr>) (step c p)"
  by (simp add: step_def Let_def split: list.split option.split prod.split)

lemma parse_loop_buffer:
  "parse_loop cs (p\<lparr>buffer := b\<rparr>) = map_option (\<lambda>q. q\<lparr>buffer := b\<rparr>) (parse_loop cs p)"
proof (induction cs arbitrary: p)
  case Nil
  show ?case by simp
next
  case (Cons c cs)
  show ?case
    by (cases "step c p") (simp_all add: step_buffer Cons.IH)
qed

lemma partial_value_buffer:
  "partial_value (p\<lparr>buffer := b\<rparr>) = map_option (\<lambda>q. q\<lparr>buffer := b\<rparr>) (partial_value p)"
  by (simp add: partial_value_def split: list.split option.split prod.split)

lemma parse_loop_append:
  "parse_loop (xs @ ys) p = Option.bind (parse_loop xs p) (parse_loop ys)"
proof (induction xs arbitrary: p)
  case Nil
  show ?case by simp
next
  case (Cons c cs)
  show ?case
    by (cases "step c p") (simp_all add: Cons.IH)
qed

lemma run_buffer: "run cs (p\<lparr>buffer := b\<rparr>) = map_option (\<lambda>q. q\<lparr>buffer := b\<rparr>) (run cs p)"
  by (cases "parse_loop cs p") (simp_all add: run_def parse_loop_buffer partial_value_buffer)

lemma run_Cons: "run (c # cs) q = Option.bind (step c q) (run cs)"
  by (cases "step c q") (simp_all add: run_def)

lemma consume_run:
  "consume p chunk = map_option (\<lambda>q. q\<lparr>buffer := []\<rparr>) (run (buffer p @ chunk) p)"
proof -
  have "consume p chunk =
      Option.bind (run (buffer p @ chunk) (p\<lparr>buffer := buffer p @ chunk\<rparr>)) (\<lambda>r. Some (r\<lparr>buffer := []\<rparr>))"
    by (simp add: consume_def parse_def run_def)
  also have "\<dots> = map_option (\<lambda>q. q\<lparr>buffer := []\<rparr>) (run (buffer p @ chunk) p)"
    by (cases "run (buffer p @ chunk) p") (simp_all add: run_buffer)
  finally show ?thesis .
qed

text \<open>
  Writing the same slot twice leaves the second value only. This is why a partial value
  written at the end of one call leaves no trace: the slot is written again when the string
  closes, or at the end of the next call.
\<close>

lemma setitem_twice: "setitem (setitem h a k v) a k w = setitem h a k w"
  by (cases "a < length h") (simp_all add: setitem_def list_update_beyond)

lemma partial_value_idem:
  "Option.bind (partial_value p) partial_value = partial_value p"
  by (simp add: partial_value_def setitem_twice split: list.split option.split prod.split)

lemma step_after_partial_value:
  "Option.bind (Option.bind (partial_value p) (step c)) partial_value
   = Option.bind (step c p) partial_value"
  by (simp add: partial_value_def step_def setitem_twice Let_def
           split: list.split option.split prod.split)

lemma run_after_partial_value:
  "Option.bind (partial_value p) (run cs) = run cs p"
proof (induction cs arbitrary: p)
  case Nil
  show ?case by (simp add: run_def partial_value_idem)
next
  case (Cons c cs)
  have via_pv: "Option.bind x (run cs) = Option.bind (Option.bind x partial_value) (run cs)" for x
    by (cases x) (simp_all add: Cons.IH)
  have "Option.bind (partial_value p) (run (c # cs))
      = Option.bind (Option.bind (partial_value p) (step c)) (run cs)"
    by (cases "partial_value p") (simp_all add: run_Cons)
  also have "\<dots> = Option.bind (Option.bind (Option.bind (partial_value p) (step c)) partial_value) (run cs)"
    by (rule via_pv)
  also have "\<dots> = Option.bind (Option.bind (step c p) partial_value) (run cs)"
    by (simp only: step_after_partial_value)
  also have "\<dots> = Option.bind (step c p) (run cs)"
    by (rule via_pv [symmetric])
  also have "\<dots> = run (c # cs) p"
    by (simp add: run_Cons)
  finally show ?case .
qed

lemma run_append: "run (xs @ ys) p = Option.bind (run xs p) (run ys)"
proof -
  have "run (xs @ ys) p = Option.bind (parse_loop xs p) (run ys)"
    by (cases "parse_loop xs p") (simp_all add: run_def parse_loop_append)
  also have "\<dots> = Option.bind (parse_loop xs p) (\<lambda>q. Option.bind (partial_value q) (run ys))"
    by (simp add: run_after_partial_value)
  also have "\<dots> = Option.bind (run xs p) (run ys)"
    by (cases "parse_loop xs p") (simp_all add: run_def)
  finally show ?thesis .
qed

lemma consume_consume:
  "Option.bind (consume p a) (\<lambda>q. consume q b) = consume p (a @ b)"
proof -
  have "Option.bind (consume p a) (\<lambda>q. consume q b)
      = map_option (\<lambda>q. q\<lparr>buffer := []\<rparr>) (Option.bind (run (buffer p @ a) p) (run b))"
    by (cases "run (buffer p @ a) p"; cases "run b (the (run (buffer p @ a) p))")
       (simp_all add: consume_run run_buffer)
  also have "\<dots> = consume p (a @ b)"
    by (simp add: consume_run run_append [symmetric])
  finally show ?thesis .
qed

text \<open>
  C1. Chunk-boundary insensitivity: for every input and every split \<open>a @ b\<close> of it,
  \<^verbatim>\<open>consume(a)\<close> then \<^verbatim>\<open>consume(b)\<close> on a fresh parser ends in the same parser state,
  and so in the same snapshot, as \<^verbatim>\<open>consume(a + b)\<close> on a fresh parser. (The same holds
  from any parser, by \<open>consume_consume\<close>.)
\<close>

theorem chunk_boundary_insensitive:
  "Option.bind (consume init a) (\<lambda>q. consume q b) = consume init (a @ b)
   \<and> Option.bind (Option.bind (consume init a) (\<lambda>q. consume q b)) get
     = Option.bind (consume init (a @ b)) get"
  by (simp add: consume_consume)

section \<open>Every step keeps the parser well formed\<close>

lemma wf_init: "wf init"
  by (simp add: wf_def init_def heap_ok_def dict_ok_def single_parent_def child_def flags_ok_def
        stack_ok_def)

lemma dict_ok_Ref: "dict_ok n a d \<Longrightarrow> (k, Ref b) \<in> set d \<Longrightarrow> a < b \<and> b < n"
proof -
  assume ok: "dict_ok n a d" and mem: "(k, Ref b) \<in> set d"
  from mem have "Ref b \<in> snd ` set d" by force
  with ok have "case Ref b of Str s \<Rightarrow> True | Ref b \<Rightarrow> a < b \<and> b < n"
    unfolding dict_ok_def by blast
  then show ?thesis by simp
qed

lemma child_forward: "heap_ok h \<Longrightarrow> child h a b \<Longrightarrow> a < b \<and> b < length h"
proof -
  assume ok: "heap_ok h" and ch: "child h a b"
  from ch have a: "a < length h" and "Ref b \<in> snd ` set (h ! a)" by (simp_all add: child_def)
  then obtain k where "(k, Ref b) \<in> set (h ! a)" by auto
  moreover from ok a have "dict_ok (length h) a (h ! a)" by (simp add: heap_ok_def)
  ultimately show ?thesis by (rule dict_ok_Ref [rotated])
qed

lemma set_update_subset: "set (AList.update k v d) \<subseteq> insert (k, v) (set d)"
  by (induction d) auto

lemma update_mem: "(k, v) \<in> set (AList.update k v d)"
  by (induction d) auto

lemma dict_ok_update:
  assumes "dict_ok n a d" and "case v of Str s \<Rightarrow> True | Ref b \<Rightarrow> a < b \<and> b < n"
  shows "dict_ok n a (AList.update k v d)"
proof -
  have "distinct (map fst (AList.update k v d))"
    using assms(1) by (simp add: dict_ok_def distinct_update)
  moreover have "snd ` set (AList.update k v d) \<subseteq> insert v (snd ` set d)"
    using set_update_subset [of k v d] by force
  ultimately show ?thesis
    using assms unfolding dict_ok_def by blast
qed

lemma dict_ok_mono: "dict_ok n a d \<Longrightarrow> n \<le> m \<Longrightarrow> dict_ok m a d"
  unfolding dict_ok_def by (auto split: pyvalue.splits)

lemma length_setitem [simp]: "length (setitem h a k v) = length h"
  by (simp add: setitem_def)

lemma nth_setitem:
  "x < length h \<Longrightarrow> setitem h a k v ! x = (if x = a then AList.update k v (h ! a) else h ! x)"
  by (simp add: setitem_def)

lemma heap_ok_setitem:
  assumes "heap_ok h" and "case v of Str s \<Rightarrow> True | Ref b \<Rightarrow> a < b \<and> b < length h"
  shows "heap_ok (setitem h a k v)"
  unfolding heap_ok_def
proof (intro conjI allI impI)
  show "setitem h a k v \<noteq> []" using assms(1) by (auto simp: heap_ok_def setitem_def)
next
  fix x assume "x < length (setitem h a k v)"
  then have x: "x < length h" by simp
  then have ok: "dict_ok (length h) x (h ! x)" using assms(1) by (simp add: heap_ok_def)
  show "dict_ok (length (setitem h a k v)) x (setitem h a k v ! x)"
  proof (cases "x = a")
    case True
    then show ?thesis using x ok assms(2) by (simp add: nth_setitem dict_ok_update)
  next
    case False
    then show ?thesis using x ok by (simp add: nth_setitem)
  qed
qed

lemma heap_ok_alloc: "heap_ok h \<Longrightarrow> heap_ok (h @ [[]])"
  unfolding heap_ok_def
proof (intro conjI allI impI)
  show "h @ [[]] \<noteq> []" by simp
next
  fix x assume h: "h \<noteq> [] \<and> (\<forall>a<length h. dict_ok (length h) a (h ! a))"
     and "x < length (h @ [[]])"
  then consider "x < length h" | "x = length h" by fastforce
  then show "dict_ok (length (h @ [[]])) x ((h @ [[]]) ! x)"
  proof cases
    case 1
    with h have "dict_ok (length h) x (h ! x)" by simp
    then have "dict_ok (Suc (length h)) x (h ! x)" by (rule dict_ok_mono) simp
    with 1 show ?thesis by (simp add: nth_append)
  next
    case 2
    then show ?thesis by (simp add: dict_ok_def)
  qed
qed


lemma child_setitem_other:
  "x \<noteq> a \<Longrightarrow> child (setitem h a k v) x y = child h x y"
  by (cases "x < length h") (simp_all add: child_def nth_setitem)

lemma child_setitem_top:
  assumes "child (setitem h a k v) a y"
  shows "child h a y \<or> v = Ref y"
proof -
  from assms have a: "a < length h" by (simp add: child_def)
  with assms have "Ref y \<in> snd ` set (AList.update k v (h ! a))"
    by (simp add: child_def nth_setitem)
  then have "Ref y \<in> insert v (snd ` set (h ! a))"
    using set_update_subset [of k v "h ! a"] by force
  with a show ?thesis by (auto simp: child_def)
qed

lemma child_setitem_new: "a < length h \<Longrightarrow> child (setitem h a k (Ref b)) a b"
proof -
  assume a: "a < length h"
  have "(k, Ref b) \<in> set (AList.update k (Ref b) (h ! a))" by (rule update_mem)
  then have "Ref b \<in> snd ` set (AList.update k (Ref b) (h ! a))" by force
  with a show ?thesis by (simp add: child_def nth_setitem)
qed

lemma child_alloc: "child (h @ [[]]) x y = child h x y"
proof (cases "x < length h")
  case True
  then show ?thesis by (simp add: child_def nth_append)
next
  case False
  then show ?thesis by (cases "x = length h") (simp_all add: child_def nth_append)
qed

lemma single_parent_setitem_Str:
  assumes "single_parent h"
  shows "single_parent (setitem h a k (Str s))"
proof -
  have sub: "child (setitem h a k (Str s)) x y \<Longrightarrow> child h x y" for x y
    using child_setitem_top [of h a k "Str s" y] child_setitem_other [of x a h k "Str s" y]
    by (cases "x = a") auto
  show ?thesis
    unfolding single_parent_def
  proof (intro allI impI)
    fix x x' y
    assume "child (setitem h a k (Str s)) x y \<and> child (setitem h a k (Str s)) x' y"
    then have "child h x y \<and> child h x' y" by (auto dest: sub)
    with assms show "x = x'" unfolding single_parent_def by blast
  qed
qed

lemma single_parent_open:
  assumes sp: "single_parent h" and ok: "heap_ok h"
  shows "single_parent (setitem (h @ [[]]) a k (Ref (length h)))"
proof -
  let ?h' = "setitem (h @ [[]]) a k (Ref (length h))"
  have sub: "child ?h' x y \<Longrightarrow> child h x y \<or> (x = a \<and> y = length h)" for x y
    using child_setitem_top [of "h @ [[]]" a k "Ref (length h)" y]
          child_setitem_other [of x a "h @ [[]]" k "Ref (length h)" y]
    by (cases "x = a") (auto simp: child_alloc)
  have fresh: "\<not> child h x (length h)" for x
    using child_forward [OF ok, of x "length h"] by auto
  show ?thesis
    unfolding single_parent_def
  proof (intro allI impI)
    fix x x' y
    assume both: "child ?h' x y \<and> child ?h' x' y"
    show "x = x'"
    proof (cases "y = length h")
      case True
      with both sub [of x y] sub [of x' y] fresh show ?thesis by auto
    next
      case False
      with both sub [of x y] sub [of x' y] have "child h x y \<and> child h x' y" by auto
      with sp show ?thesis unfolding single_parent_def by blast
    qed
  qed
qed

text \<open>The frames below the top own dictionaries allocated before the top one.\<close>

lemma path_ok_below:
  "heap_ok h \<Longrightarrow> path_ok h (a # rest) \<Longrightarrow> x \<in> set rest \<Longrightarrow> x < a"
proof (induction rest arbitrary: a)
  case Nil
  then show ?case by simp
next
  case (Cons b rest)
  from Cons.prems have ch: "child h b a" and p: "path_ok h (b # rest)" by simp_all
  from child_forward [OF Cons.prems(1) ch] have "b < a" by simp
  moreover have "x \<in> set rest \<Longrightarrow> x < b" using Cons.IH [OF Cons.prems(1) p] .
  ultimately show ?case using Cons.prems(3) by auto
qed

lemma path_ok_top_lt: "heap_ok h \<Longrightarrow> path_ok h (a # rest) \<Longrightarrow> a < length h"
proof (cases rest)
  case Nil
  assume "heap_ok h" "path_ok h (a # rest)"
  with Nil show ?thesis by (simp add: heap_ok_def)
next
  case (Cons b rest')
  assume "heap_ok h" "path_ok h (a # rest)"
  with Cons child_forward [of h b a] show ?thesis by simp
qed

lemma path_ok_cong:
  "path_ok h as \<Longrightarrow> (\<And>x y. x \<in> set (tl as) \<Longrightarrow> child h x y \<Longrightarrow> child h' x y) \<Longrightarrow> path_ok h' as"
proof (induction h as rule: path_ok.induct)
  case (1 h)
  then show ?case by simp
next
  case (2 h a)
  then show ?case by simp
next
  case (3 h b a rest)
  from "3.prems" have "child h' a b" by simp
  moreover have "path_ok h' (a # rest)"
    using "3.IH" "3.prems" by simp
  ultimately show ?case by simp
qed

lemma path_ok_setitem:
  assumes "heap_ok h" and "path_ok h (a # rest)"
  shows "path_ok (setitem h a k v) (a # rest)"
proof (rule path_ok_cong [OF assms(2)])
  fix x y assume "x \<in> set (tl (a # rest))" and ch: "child h x y"
  then have "x \<noteq> a" using path_ok_below [OF assms, of x] by auto
  with ch show "child (setitem h a k v) x y" by (simp add: child_setitem_other)
qed

lemma path_ok_alloc: "path_ok h as \<Longrightarrow> path_ok (h @ [[]]) as"
  by (rule path_ok_cong) (simp_all add: child_alloc)


lemma wf_stackE:
  assumes "wf p"
  obtains a key rest where "stack p = (a, key) # rest"
    and "path_ok (heap p) (a # map fst rest)" and "a < length (heap p)"
proof -
  from assms have ok: "heap_ok (heap p)" and so: "stack_ok (heap p) (stack p)"
    by (simp_all add: wf_def)
  from so obtain fr rest where st: "stack p = fr # rest"
    by (cases "stack p") (simp_all add: stack_ok_def)
  obtain a key where fr: "fr = (a, key)" by (cases fr)
  from so st fr have pa: "path_ok (heap p) (a # map fst rest)" by (simp add: stack_ok_def)
  from path_ok_top_lt [OF ok pa] st fr pa that show thesis by simp
qed

lemma wf_step:
  assumes "wf p"
  shows "\<exists>q. step c p = Some q \<and> wf q"
proof -
  from assms have ok: "heap_ok (heap p)" and sp: "single_parent (heap p)"
    and so: "stack_ok (heap p) (stack p)" and fl: "flags_ok p"
    by (simp_all add: wf_def)
  from assms obtain a key rest where st: "stack p = (a, key) # rest"
    and pa: "path_ok (heap p) (a # map fst rest)" and a: "a < length (heap p)"
    by (rule wf_stackE)
  show ?thesis
  proof (cases "in_string p")
    case True
    note ins = True
    show ?thesis
    proof (cases "escape p \<or> (c \<noteq> backslash \<and> c \<noteq> dquote)")
      case True
      then have "step c p = Some (p\<lparr>current_string := current_string p @ [c], escape := False\<rparr>)
          \<or> step c p = Some (p\<lparr>current_string := current_string p @ [c]\<rparr>)"
        using ins by (auto simp add: step_def)
      then show ?thesis using assms ins
        by (auto simp add: wf_def flags_ok_def)
    next
      case False
      then have ne: "\<not> escape p" and c: "c = backslash \<or> c = dquote" by auto
      show ?thesis
      proof (cases "c = backslash")
        case True
        then have "step c p = Some (p\<lparr>escape := True\<rparr>)" using ins ne by (simp add: step_def)
        then show ?thesis using assms ins by (simp add: wf_def flags_ok_def)
      next
        case False
        with c have c: "c = dquote" by simp
        show ?thesis
        proof (cases "expecting_colon p")
          case True
          then have "step c p = Some (p\<lparr>in_string := False,
                         stack := (a, Some (current_string p)) # rest,
                         expecting_colon := False, current_string := []\<rparr>)"
            using ins ne c st by (simp add: step_def)
          then show ?thesis using ok sp pa ne
            by (simp add: wf_def flags_ok_def stack_ok_def)
        next
          case False
          with fl ins st obtain k where key: "key = Some k" by (auto simp: flags_ok_def)
          have "step c p = Some (p\<lparr>in_string := False,
                    heap := setitem (heap p) a k (Str (current_string p)),
                    stack := (a, None) # rest, current_string := []\<rparr>)"
            using ins ne c st False key by (simp add: step_def)
          moreover have "heap_ok (setitem (heap p) a k (Str (current_string p)))"
            using ok by (rule heap_ok_setitem) simp
          moreover have "single_parent (setitem (heap p) a k (Str (current_string p)))"
            using sp by (rule single_parent_setitem_Str)
          moreover have "path_ok (setitem (heap p) a k (Str (current_string p))) (a # map fst rest)"
            using ok pa by (rule path_ok_setitem)
          ultimately show ?thesis using ne False
            by (simp add: wf_def flags_ok_def stack_ok_def)
        qed
      qed
    qed
  next
    case False
    note nins = False
    with fl have rest_flags: "\<not> expecting_colon p" "\<not> escape p" "current_string p = []"
      by (simp_all add: flags_ok_def)
    consider (opn) k where "c = CHR ''{''" "key = Some k"
      | (opn0) "c = CHR ''{''" "key = None"
      | (cls) "c = CHR ''}''"
      | (quo) "c = dquote"
      | (other) "c \<noteq> CHR ''{''" "c \<noteq> CHR ''}''" "c \<noteq> dquote"
      by (cases key) auto
    then show ?thesis
    proof cases
      case opn
      let ?h = "setitem (heap p @ [[]]) a k (Ref (length (heap p)))"
      have "step c p = Some (p\<lparr>heap := ?h, stack := (length (heap p), None) # (a, None) # rest\<rparr>)"
        using nins opn st by (simp add: step_def Let_def)
      moreover have "heap_ok ?h"
        using a by (intro heap_ok_setitem heap_ok_alloc ok) simp
      moreover have "single_parent ?h"
        using sp ok by (rule single_parent_open)
      moreover have "path_ok ?h (a # map fst rest)"
        using heap_ok_alloc [OF ok] path_ok_alloc [OF pa] by (rule path_ok_setitem)
      moreover have "child ?h a (length (heap p))"
        using a by (simp add: child_setitem_new)
      ultimately show ?thesis using nins fl
        by (simp add: wf_def flags_ok_def stack_ok_def)
    next
      case opn0
      then have "step c p = Some p" using nins st by (simp add: step_def)
      then show ?thesis using assms by simp
    next
      case cls
      show ?thesis
      proof (cases rest)
        case Nil
        then have "step c p = Some p" using nins st cls by (simp add: step_def)
        then show ?thesis using assms by simp
      next
        case (Cons fr rest')
        then have "step c p = Some (p\<lparr>stack := fr # rest'\<rparr>)"
          using nins st cls by (simp add: step_def)
        moreover have "path_ok (heap p) (fst fr # map fst rest')"
          using pa Cons by simp
        ultimately show ?thesis using ok sp nins fl
          by (simp add: wf_def flags_ok_def stack_ok_def)
      qed
    next
      case quo
      then have "step c p = Some (p\<lparr>in_string := True, expecting_colon := (key = None)\<rparr>)"
        using nins st rest_flags by (simp add: step_def)
      then show ?thesis using ok sp so st
        by (simp add: wf_def flags_ok_def stack_ok_def)
    next
      case other
      then have "step c p = Some p" using nins by (simp add: step_def)
      then show ?thesis using assms by simp
    qed
  qed
qed

section \<open>No call fails\<close>

lemma wf_parse_loop: "wf p \<Longrightarrow> \<exists>q. parse_loop cs p = Some q \<and> wf q"
proof (induction cs arbitrary: p)
  case Nil
  then show ?case by simp
next
  case (Cons c cs)
  from wf_step [OF Cons.prems] obtain q where "step c p = Some q" and "wf q" by blast
  with Cons.IH [of q] show ?case by simp
qed

lemma wf_partial_value:
  assumes "wf p"
  shows "\<exists>q. partial_value p = Some q \<and> wf q"
proof -
  from assms have ok: "heap_ok (heap p)" and sp: "single_parent (heap p)"
    and fl: "flags_ok p"
    by (simp_all add: wf_def)
  from assms obtain a key rest where st: "stack p = (a, key) # rest"
    and pa: "path_ok (heap p) (a # map fst rest)" and a: "a < length (heap p)"
    by (rule wf_stackE)
  show ?thesis
  proof (cases "in_string p \<and> \<not> expecting_colon p")
    case False
    then have "partial_value p = Some p" by (auto simp: partial_value_def)
    with assms show ?thesis by simp
  next
    case True
    with fl st obtain k where key: "key = Some k" by (auto simp: flags_ok_def)
    let ?h = "setitem (heap p) a k (Str (current_string p))"
    have "partial_value p = Some (p\<lparr>heap := ?h\<rparr>)"
      using True st key by (simp add: partial_value_def)
    moreover have "heap_ok ?h"
      using ok by (rule heap_ok_setitem) simp
    moreover have "single_parent ?h"
      using sp by (rule single_parent_setitem_Str)
    moreover have "path_ok ?h (a # map fst rest)"
      using ok pa by (rule path_ok_setitem)
    ultimately show ?thesis using fl st
      by (simp add: wf_def flags_ok_def stack_ok_def)
  qed
qed

lemma wf_run: "wf p \<Longrightarrow> \<exists>q. run cs p = Some q \<and> wf q"
proof -
  assume "wf p"
  from wf_parse_loop [OF this] obtain q where "parse_loop cs p = Some q" and "wf q" by blast
  with wf_partial_value [of q] show ?thesis by (simp add: run_def)
qed

lemma wf_buffer: "wf (p\<lparr>buffer := b\<rparr>) = wf p"
  by (simp add: wf_def flags_ok_def)

lemma wf_consume: "wf p \<Longrightarrow> \<exists>q. consume p chunk = Some q \<and> wf q \<and> buffer q = []"
proof -
  assume "wf p"
  from wf_run [OF this] obtain q where "run (buffer p @ chunk) p = Some q" and "wf q" by blast
  then show ?thesis by (simp add: consume_run wf_buffer)
qed

lemma reachable_wf: "reachable p \<Longrightarrow> wf p \<and> buffer p = []"
proof (induction rule: reachable.induct)
  case fresh
  show ?case using wf_init by (simp add: init_def)
next
  case (consumed p chunk p')
  with wf_consume [of p chunk] show ?case by auto
qed

text \<open>
  C5. \<^verbatim>\<open>consume\<close> never fails: from every parser a caller can hold (the fresh one or a
  result of earlier calls) and for every chunk, of any length and content, the call raises
  nothing and returns the parser, again one a caller can hold.
\<close>

theorem consume_never_fails:
  "reachable p \<Longrightarrow> \<exists>p'. consume p chunk = Some p' \<and> reachable p'"
proof -
  assume r: "reachable p"
  then have "wf p" by (simp add: reachable_wf)
  from wf_consume [OF this] obtain q where q: "consume p chunk = Some q" by blast
  with r have "reachable q" by (rule reachable.consumed)
  with q show ?thesis by blast
qed

theorem consume_never_fails_witness:
  "reachable init \<and> (\<exists>p'. consume init ''}}{[1,'' = Some p' \<and> reachable p')"
  using consume_never_fails [of init "''}}{[1,''"] reachable.fresh by simp

section \<open>The frame stack\<close>

lemma path_ok_at_depth: "path_ok h (a # rest) \<Longrightarrow> at_depth h (length rest) a"
proof (induction rest arbitrary: a)
  case Nil
  then show ?case by (simp add: at_depth.root)
next
  case (Cons b rest)
  then have "at_depth h (length rest) b" and "child h b a" by simp_all
  then show ?case by (simp add: at_depth.nested)
qed

lemma path_ok_last: "path_ok h as \<Longrightarrow> last as = 0"
  by (induction h as rule: path_ok.induct) simp_all

lemma at_depth_unique:
  assumes ok: "heap_ok h" and sp: "single_parent h"
  shows "at_depth h d a \<Longrightarrow> at_depth h d' a \<Longrightarrow> d = d'"
proof (induction arbitrary: d' rule: at_depth.induct)
  case root
  from root show ?case
  proof (cases rule: at_depth.cases)
    case root
    then show ?thesis by simp
  next
    case (nested d'' a')
    with child_forward [OF ok, of a' 0] show ?thesis by simp
  qed
next
  case (nested d a b)
  from nested.prems show ?case
  proof (cases rule: at_depth.cases)
    case root
    with nested.hyps(2) child_forward [OF ok, of a 0] show ?thesis by simp
  next
    case (nested d'' a')
    with \<open>child h a b\<close> sp have "a' = a" unfolding single_parent_def by blast
    with nested nested.IH [of d''] show ?thesis by simp
  qed
qed

lemma parse_loop_closes:
  "\<not> in_string p \<Longrightarrow>
   parse_loop (replicate n CHR ''}'') p
     = Some (p\<lparr>stack := drop (min n (length (stack p) - 1)) (stack p)\<rparr>)"
proof (induction n arbitrary: p)
  case 0
  then show ?case by simp
next
  case (Suc n)
  show ?case
  proof (cases "length (stack p) > 1")
    case False
    then have "step CHR ''}'' p = Some p" using Suc.prems by (simp add: step_def)
    moreover from False have "length (stack p) - 1 = 0" by simp
    ultimately show ?thesis using Suc.IH [OF Suc.prems] by simp
  next
    case True
    let ?q = "p\<lparr>stack := tl (stack p)\<rparr>"
    have st: "step CHR ''}'' p = Some ?q" using Suc.prems True by (simp add: step_def)
    have "\<not> in_string ?q" using Suc.prems by simp
    from Suc.IH [OF this]
    have "parse_loop (replicate n CHR ''}'') ?q
        = Some (p\<lparr>stack := drop (min n (length (stack p) - 2)) (tl (stack p))\<rparr>)"
      by (simp add: numeral_2_eq_2)
    moreover have "drop (min n (length (stack p) - 2)) (tl (stack p))
        = drop (Suc (min n (length (stack p) - 2))) (stack p)"
      by (simp add: drop_Suc)
    moreover have "Suc (min n (length (stack p) - 2)) = min (Suc n) (length (stack p) - 1)"
      using True by arith
    ultimately show ?thesis using st by simp
  qed
qed

lemma consume_closes:
  assumes "wf p" and "buffer p = []" and "\<not> in_string p"
  shows "consume p (replicate n CHR ''}'')
     = Some (p\<lparr>stack := drop (min n (length (stack p) - 1)) (stack p)\<rparr>)"
proof -
  let ?q = "p\<lparr>stack := drop (min n (length (stack p) - 1)) (stack p)\<rparr>"
  have "partial_value ?q = Some ?q" using assms(3) by (simp add: partial_value_def)
  then have "run (replicate n CHR ''}'') p = Some ?q"
    using assms(3) by (simp add: run_def parse_loop_closes)
  then show ?thesis using assms(2) by (simp add: consume_run)
qed

text \<open>
  C6. Frame-stack invariant: in every parser a caller can hold, the stack is not empty, its
  bottom frame owns the root dictionary (address 0), and its length is the nesting depth
  plus one: the dictionary of the top frame lies exactly \<open>length (stack p) - 1\<close> levels
  below the root in the result, and at no other depth. Outside a string, \<open>n\<close> closing
  tokens pop \<open>n\<close> frames but never the bottom one, however large \<open>n\<close> is.
\<close>

theorem frame_stack_invariant:
  assumes "reachable p"
  shows "stack p \<noteq> []
     \<and> fst (last (stack p)) = 0
     \<and> at_depth (heap p) (length (stack p) - 1) (fst (hd (stack p)))
     \<and> (\<forall>d. at_depth (heap p) d (fst (hd (stack p))) \<longrightarrow> d = length (stack p) - 1)
     \<and> (\<not> in_string p \<longrightarrow>
          (\<exists>p'. consume p (replicate n CHR ''}'') = Some p' \<and> reachable p'
             \<and> stack p' = drop (min n (length (stack p) - 1)) (stack p)
             \<and> stack p' \<noteq> [] \<and> last (stack p') = last (stack p)))"
proof -
  from assms have w: "wf p" and b: "buffer p = []" by (simp_all add: reachable_wf)
  from w have ok: "heap_ok (heap p)" and sp: "single_parent (heap p)" by (simp_all add: wf_def)
  from w obtain a key rest where st: "stack p = (a, key) # rest"
    and pa: "path_ok (heap p) (a # map fst rest)" by (rule wf_stackE)
  have ne: "stack p \<noteq> []" using st by simp
  have "last (map fst (stack p)) = 0" using path_ok_last [OF pa] st by simp
  then have bottom: "fst (last (stack p)) = 0" using ne by (simp add: last_map)
  have depth: "at_depth (heap p) (length (stack p) - 1) (fst (hd (stack p)))"
    using path_ok_at_depth [OF pa] st by simp
  have uniq: "\<forall>d. at_depth (heap p) d (fst (hd (stack p))) \<longrightarrow> d = length (stack p) - 1"
    using at_depth_unique [OF ok sp _ depth] by blast
  have closes: "\<exists>p'. consume p (replicate n CHR ''}'') = Some p' \<and> reachable p'
             \<and> stack p' = drop (min n (length (stack p) - 1)) (stack p)
             \<and> stack p' \<noteq> [] \<and> last (stack p') = last (stack p)" if nins: "\<not> in_string p"
  proof -
    let ?q = "p\<lparr>stack := drop (min n (length (stack p) - 1)) (stack p)\<rparr>"
    have c: "consume p (replicate n CHR ''}'') = Some ?q"
      using w b nins by (rule consume_closes)
    have r: "reachable ?q" using assms c by (rule reachable.consumed)
    have lt: "min n (length (stack p) - 1) < length (stack p)" using ne
      by (cases "stack p") (simp_all add: min_def)
    then have "0 < length (stack ?q)" by simp
    then have "stack ?q \<noteq> []" by blast
    moreover have "last (stack ?q) = last (stack p)" using lt by (simp add: last_drop)
    ultimately show ?thesis using c r by simp
  qed
  from ne bottom depth uniq closes show ?thesis by blast
qed


text \<open>The definitions to unfold when a call is evaluated on a concrete input.\<close>

lemmas eval_defs = consume_def parse_def step_def init_def partial_value_def get_def setitem_def
  Let_def

theorem frame_stack_invariant_witness:
  \<open>reachable (the (consume init ''{"a": {"b": {''))
   \<and> stack (the (consume init ''{"a": {"b": {'')) = [(2, None), (1, None), (0, None)]
   \<and> at_depth (heap (the (consume init ''{"a": {"b": {''))) 2 2
   \<and> (\<exists>p'. consume (the (consume init ''{"a": {"b": {'')) (replicate 5 CHR ''}'') = Some p'
          \<and> stack p' = [(0, None)])\<close>
proof -
  let ?p = "\<lparr>buffer = [], heap = [[(''a'', Ref 1)], [(''b'', Ref 2)], []],
             stack = [(2, None), (1, None), (0, None)], in_string = False, escape = False,
             current_string = [], expecting_colon = False\<rparr>"
  have c: \<open>consume init ''{"a": {"b": {'' = Some ?p\<close>
    by (simp add: eval_defs)
  have r: "reachable ?p"
    using reachable.fresh c by (rule reachable.consumed)
  from frame_stack_invariant [OF r, of 5] show ?thesis
    using r by (auto simp add: c numeral_2_eq_2)
qed

section \<open>The snapshot\<close>

lemma those_map_Some:
  "(\<And>x. x \<in> set xs \<Longrightarrow> f x \<noteq> None) \<Longrightarrow> \<exists>ys. those (map f xs) = Some ys"
proof (induction xs)
  case Nil
  show ?case by simp
next
  case (Cons x xs)
  then obtain ys where "those (map f xs) = Some ys" by auto
  moreover from Cons.prems obtain y where "f x = Some y" by fastforce
  ultimately show ?case by simp
qed

lemma those_map_mem:
  "those (map f xs) = Some ys \<Longrightarrow> x \<in> set xs \<Longrightarrow> \<exists>y. f x = Some y \<and> y \<in> set ys"
proof (induction xs arbitrary: ys)
  case Nil
  then show ?case by simp
next
  case (Cons z zs)
  from Cons.prems(1) obtain y' ys' where z: "f z = Some y'" and zs: "those (map f zs) = Some ys'"
    and ys: "ys = y' # ys'"
    by (auto split: option.splits)
  show ?case
  proof (cases "x = z")
    case True
    with z ys show ?thesis by simp
  next
    case False
    with Cons.prems(2) have "x \<in> set zs" by simp
    from Cons.IH [OF zs this] ys show ?thesis by auto
  qed
qed

lemma reify_total:
  "heap_ok h \<Longrightarrow> a < length h \<Longrightarrow> length h - a \<le> n \<Longrightarrow> \<exists>kvs. reify n h (Ref a) = Some (JObj kvs)"
proof (induction n arbitrary: a)
  case 0
  then show ?case by simp
next
  case (Suc n)
  let ?f = "\<lambda>(k, v). map_option (Pair k) (reify n h v)"
  have "?f kv \<noteq> None" if mem: "kv \<in> set (h ! a)" for kv
  proof -
    obtain k v where kv: "kv = (k, v)" by (cases kv)
    show ?thesis
    proof (cases v)
      case (Str s)
      with kv show ?thesis by simp
    next
      case (Ref b)
      from Suc.prems have "dict_ok (length h) a (h ! a)" by (simp add: heap_ok_def)
      with mem kv Ref have b: "a < b \<and> b < length h" by (auto dest: dict_ok_Ref)
      then have "length h - b \<le> n" using Suc.prems(3) by arith
      with Suc.IH [of b] Suc.prems(1) b obtain kvs where "reify n h (Ref b) = Some (JObj kvs)"
        by blast
      with kv Ref show ?thesis by simp
    qed
  qed
  then obtain ys where "those (map ?f (h ! a)) = Some ys"
    using those_map_Some [of "h ! a" ?f] by blast
  with Suc.prems(2) show ?case by simp
qed

lemma get_total: "wf p \<Longrightarrow> \<exists>kvs. get p = Some (JObj kvs)"
proof -
  assume "wf p"
  then have ok: "heap_ok (heap p)" by (simp add: wf_def)
  then have "0 < length (heap p)" by (simp add: heap_ok_def)
  with ok show ?thesis unfolding get_def by (intro reify_total) simp_all
qed

text \<open>
  C9. Shape of the result: in every parser a caller can hold, the snapshot is defined and
  is an object, and every value stored in a dictionary is a string or a reference to a
  dictionary of the store, allocated after its holder; no dictionary is held twice. So the
  result is a tree of objects with string leaves. The store has no other kind of value,
  since the source stores nothing but \<^verbatim>\<open>self.current_string\<close> and \<^verbatim>\<open>new_obj\<close>.
\<close>

theorem result_shape:
  assumes "reachable p"
  shows "(\<exists>kvs. get p = Some (JObj kvs))
     \<and> (\<forall>a < length (heap p). \<forall>(k, v) \<in> set (heap p ! a).
           case v of Str s \<Rightarrow> True | Ref b \<Rightarrow> a < b \<and> b < length (heap p))
     \<and> single_parent (heap p)"
proof -
  from assms have w: "wf p" by (simp add: reachable_wf)
  then have ok: "heap_ok (heap p)" and sp: "single_parent (heap p)" by (simp_all add: wf_def)
  have "case v of Str s \<Rightarrow> True | Ref b \<Rightarrow> a < b \<and> b < length (heap p)"
    if "a < length (heap p)" and "(k, v) \<in> set (heap p ! a)" for a k v
  proof (cases v)
    case (Str s)
    then show ?thesis by simp
  next
    case (Ref b)
    from ok that(1) have "dict_ok (length (heap p)) a (heap p ! a)" by (simp add: heap_ok_def)
    with that(2) Ref show ?thesis by (auto dest: dict_ok_Ref)
  qed
  with get_total [OF w] sp show ?thesis by blast
qed

theorem result_shape_witness:
  \<open>reachable (the (consume init ''{"a": {"b": "c"}, "d": 7}''))
   \<and> get (the (consume init ''{"a": {"b": "c"}, "d": 7}''))
       = Some (JObj [(''a'', JObj [(''b'', JStr ''c'')])])\<close>
proof -
  let ?p = "\<lparr>buffer = [], heap = [[(''a'', Ref 1)], [(''b'', Str ''c'')]],
             stack = [(0, Some ''d'')], in_string = False, escape = False,
             current_string = [], expecting_colon = False\<rparr>"
  have c: \<open>consume init ''{"a": {"b": "c"}, "d": 7}'' = Some ?p\<close>
    by (simp add: eval_defs)
  have r: "reachable ?p"
    using reachable.fresh c by (rule reachable.consumed)
  from result_shape [OF r] show ?thesis
    using r by (simp add: c get_def)
qed

text \<open>A dictionary of the store at some depth below the root is an object of the snapshot.\<close>

lemma reify_RefE:
  assumes "reify n h (Ref a) = Some j"
  obtains m kvs where "n = Suc m" and "a < length h" and "j = JObj kvs"
    and "those (map (\<lambda>(k, v). map_option (Pair k) (reify m h v)) (h ! a)) = Some kvs"
  using assms by (cases n) (auto split: if_splits)

lemma reify_entry:
  assumes "reify (Suc m) h (Ref a) = Some (JObj kvs)" and "(k, v) \<in> set (h ! a)"
  shows "\<exists>jv. reify m h v = Some jv \<and> (k, jv) \<in> set kvs"
proof -
  let ?f = "\<lambda>(k, v). map_option (Pair k) (reify m h v)"
  from assms(1) have "those (map ?f (h ! a)) = Some kvs" by (auto split: if_splits)
  from those_map_mem [OF this assms(2)] show ?thesis by auto
qed

lemma objects_nested: "(k, j) \<in> set kvs \<Longrightarrow> set (objects j) \<subseteq> set (objects (JObj kvs))"
  by force

lemma reify_at_depth:
  "at_depth h d a \<Longrightarrow> reify n h (Ref 0) = Some j \<Longrightarrow>
   \<exists>m kvs. reify (Suc m) h (Ref a) = Some (JObj kvs) \<and> set (objects (JObj kvs)) \<subseteq> set (objects j)"
proof (induction rule: at_depth.induct)
  case root
  from root obtain m kvs where "n = Suc m" and "j = JObj kvs" by (rule reify_RefE)
  with root show ?case by blast
next
  case (nested d a b)
  from nested.IH [OF nested.prems] obtain m kvs
    where ra: "reify (Suc m) h (Ref a) = Some (JObj kvs)"
      and sub: "set (objects (JObj kvs)) \<subseteq> set (objects j)" by blast
  from nested.hyps(2) obtain k where "(k, Ref b) \<in> set (h ! a)" by (auto simp: child_def)
  from reify_entry [OF ra this] obtain jv where rb: "reify m h (Ref b) = Some jv"
    and mem: "(k, jv) \<in> set kvs" by blast
  from rb obtain m' kvs' where "m = Suc m'" and "jv = JObj kvs'" by (rule reify_RefE)
  with rb mem sub objects_nested [OF mem] show ?case by blast
qed

lemma snapshot_entry:
  assumes "at_depth h d a" and "reify n h (Ref 0) = Some j" and "(k, v) \<in> set (h ! a)"
  shows "\<exists>m jv. reify m h v = Some jv \<and> has_entry j k jv"
proof -
  from reify_at_depth [OF assms(1,2)] obtain m kvs
    where ra: "reify (Suc m) h (Ref a) = Some (JObj kvs)"
      and sub: "set (objects (JObj kvs)) \<subseteq> set (objects j)" by blast
  from reify_entry [OF ra assms(3)] obtain jv where "reify m h v = Some jv"
    and "(k, jv) \<in> set kvs" by blast
  moreover have "kvs \<in> set (objects j)" using sub by auto
  ultimately show ?thesis unfolding has_entry_def by blast
qed

section \<open>Strings in flight\<close>

lemma parse_loop_fragment:
  "in_string p \<Longrightarrow> string_fragment (escape p) cs = Some (s, e) \<Longrightarrow>
   parse_loop cs p = Some (p\<lparr>current_string := current_string p @ s, escape := e\<rparr>)"
proof (induction cs arbitrary: p s)
  case Nil
  then show ?case by simp
next
  case (Cons c cs)
  show ?case
  proof (cases "escape p")
    case True
    with Cons.prems(2) obtain s' where fr: "string_fragment False cs = Some (s', e)"
      and s: "s = c # s'" by auto
    let ?q = "p\<lparr>current_string := current_string p @ [c], escape := False\<rparr>"
    have "step c p = Some ?q" using Cons.prems(1) True by (simp add: step_def)
    moreover have "parse_loop cs ?q = Some (?q\<lparr>current_string := current_string ?q @ s', escape := e\<rparr>)"
      using Cons.prems(1) fr by (intro Cons.IH) simp_all
    ultimately show ?thesis using s by simp
  next
    case False
    note ne = False
    show ?thesis
    proof (cases "c = backslash")
      case True
      with Cons.prems(2) ne have fr: "string_fragment True cs = Some (s, e)" by simp
      let ?q = "p\<lparr>escape := True\<rparr>"
      have "step c p = Some ?q" using Cons.prems(1) ne True by (simp add: step_def)
      moreover have "parse_loop cs ?q = Some (?q\<lparr>current_string := current_string ?q @ s, escape := e\<rparr>)"
        using Cons.prems(1) fr by (intro Cons.IH) simp_all
      ultimately show ?thesis by simp
    next
      case False
      with Cons.prems(2) ne have nq: "c \<noteq> dquote" by (auto split: if_splits)
      with Cons.prems(2) ne False obtain s' where fr: "string_fragment False cs = Some (s', e)"
        and s: "s = c # s'" by auto
      let ?q = "p\<lparr>current_string := current_string p @ [c]\<rparr>"
      have "step c p = Some ?q" using Cons.prems(1) ne False nq by (simp add: step_def)
      moreover have "parse_loop cs ?q = Some (?q\<lparr>current_string := current_string ?q @ s', escape := e\<rparr>)"
        using Cons.prems(1) fr ne by (intro Cons.IH) simp_all
      ultimately show ?thesis using s ne by simp
    qed
  qed
qed

lemma partial_value_fields:
  "partial_value p = Some q \<Longrightarrow>
   in_string q = in_string p \<and> escape q = escape p \<and> current_string q = current_string p
   \<and> expecting_colon q = expecting_colon p \<and> stack q = stack p \<and> buffer q = buffer p
   \<and> length (heap q) = length (heap p)"
  by (auto simp add: partial_value_def split: if_splits list.splits option.splits)

lemma partial_value_key: "\<not> (in_string p \<and> \<not> expecting_colon p) \<Longrightarrow> partial_value p = Some p"
  by (auto simp add: partial_value_def)

lemma partial_value_pending:
  "in_string p \<Longrightarrow> \<not> expecting_colon p \<Longrightarrow> stack p = (a, Some k) # rest \<Longrightarrow>
   partial_value p = Some (p\<lparr>heap := setitem (heap p) a k (Str (current_string p))\<rparr>)"
  by (simp add: partial_value_def)

lemma consume_empty_buffer:
  "buffer p = [] \<Longrightarrow> consume p cs = Option.bind (parse_loop cs p) partial_value"
proof -
  assume b: "buffer p = []"
  have "p\<lparr>buffer := buffer p\<rparr> = p" by simp
  with b have "p\<lparr>buffer := []\<rparr> = p" by simp
  then have "run cs p = map_option (\<lambda>q. q\<lparr>buffer := []\<rparr>) (run cs p)"
    using run_buffer [where cs = cs and p = p and b = "[]"] by simp
  then show ?thesis using b by (simp add: consume_run run_def)
qed

lemma consume_fragment:
  assumes "buffer p = []" and "in_string p" and "string_fragment (escape p) cs = Some (s, e)"
  shows "consume p cs = partial_value (p\<lparr>current_string := current_string p @ s, escape := e\<rparr>)"
  using assms by (simp add: consume_empty_buffer parse_loop_fragment)

lemma map_of_setitem:
  "a < length h \<Longrightarrow> map_of (setitem h a k v ! a) = (map_of (h ! a))(k \<mapsto> v)"
  by (simp add: nth_setitem update_conv')

lemma get_heap: "heap p = heap q \<Longrightarrow> get p = get q"
  by (simp add: get_def)

text \<open>The state in which a call ends with a value string open and a pending key.\<close>

lemma exposed_entry:
  assumes w: "wf p" and b: "buffer p = []" and c: "consume p chunk = Some p'"
    and ins: "in_string p'" and nec: "\<not> expecting_colon p'" and st: "stack p' = (a, Some k) # rest"
  shows "map_of (heap p' ! a) k = Some (Str (current_string p'))"
proof -
  from wf_parse_loop [OF w] obtain q where pl: "parse_loop chunk p = Some q" and wq: "wf q"
    by blast
  with b c have pv: "partial_value q = Some p'" by (simp add: consume_empty_buffer)
  from partial_value_fields [OF pv] ins nec st
  have q: "in_string q" "\<not> expecting_colon q" "stack q = (a, Some k) # rest"
    "current_string q = current_string p'" by simp_all
  from wq q(3) have a: "a < length (heap q)" by (auto elim: wf_stackE)
  from partial_value_pending [OF q(1-3)] pv
  have eq: "p' = q\<lparr>heap := setitem (heap q) a k (Str (current_string q))\<rparr>" by simp
  have "heap p' = setitem (heap q) a k (Str (current_string q))" by (subst eq) simp
  with a q(4) show ?thesis by (simp add: map_of_setitem)
qed

lemma snapshot_has_entry:
  assumes w: "wf p" and st: "stack p = (a, key) # rest" and m: "map_of (heap p ! a) k = Some v"
  shows "\<exists>j m jv. get p = Some j \<and> reify m (heap p) v = Some jv \<and> has_entry j k jv"
proof -
  from get_total [OF w] obtain kvs where g: "get p = Some (JObj kvs)" by blast
  from w st have "path_ok (heap p) (a # map fst rest)" by (simp add: wf_def stack_ok_def)
  then have d: "at_depth (heap p) (length rest) a" using path_ok_at_depth by fastforce
  from m have "(k, v) \<in> set (heap p ! a)" by (rule map_of_SomeD)
  from snapshot_entry [OF d g [unfolded get_def] this] g show ?thesis by blast
qed


lemma exposed_snapshot:
  assumes w: "wf p" and st: "stack p = (a, key) # rest"
    and m: "map_of (heap p ! a) k = Some (Str s)"
  shows "\<exists>j. get p = Some j \<and> has_entry j k (JStr s)"
  using snapshot_has_entry [OF w st m] by auto

lemma value_opens:
  assumes w: "wf p" and b: "buffer p = []" and nins: "\<not> in_string p"
    and st: "stack p = (a, Some k) # rest" and fr: "string_fragment False vs = Some (s, e)"
  shows "consume p (dquote # vs)
       = Some (p\<lparr>in_string := True, current_string := s, escape := e,
                  heap := setitem (heap p) a k (Str s)\<rparr>)"
proof -
  from w nins have fl: "\<not> expecting_colon p" "\<not> escape p" "current_string p = []"
    by (simp_all add: wf_def flags_ok_def)
  let ?q = "p\<lparr>in_string := True\<rparr>"
  let ?r = "?q\<lparr>current_string := current_string ?q @ s, escape := e\<rparr>"
  have "step dquote p = Some ?q" using nins st fl by (simp add: step_def)
  moreover have "parse_loop vs ?q = Some ?r"
    using fr fl by (intro parse_loop_fragment) simp_all
  moreover have "partial_value ?r = Some (?r\<lparr>heap := setitem (heap ?r) a k (Str (current_string ?r))\<rparr>)"
    using fl st by (intro partial_value_pending) simp_all
  ultimately show ?thesis using b fl by (simp add: consume_empty_buffer)
qed

text \<open>
  C2. Partial-value exposure. A quote that opens a value (outside a string, top frame with a
  pending key), followed in the same call by characters that do not close it, leaves under
  that key exactly the characters the chunk contributed to the value: in the dictionary of
  the top frame and in the snapshot. In general, when a call ends with a value string open
  (in a string, not expecting a colon) and the top frame has a pending key, the dictionary
  of that frame holds, under that key, exactly the characters accumulated so far, and the
  snapshot has that entry. A further chunk that does not close the string extends the
  accumulator by the characters it contributes, and the entry follows; the string stays
  open. The block that exposes the value changes neither the in-string flag nor the
  accumulator.
\<close>

theorem partial_value_exposure:
  assumes r: "reachable p" and c: "consume p chunk = Some p'"
    and ins: "in_string p'" and nec: "\<not> expecting_colon p'"
    and st: "stack p' = (a, Some k) # rest"
  shows "map_of (heap p' ! a) k = Some (Str (current_string p'))
     \<and> (\<exists>j. get p' = Some j \<and> has_entry j k (JStr (current_string p')))
     \<and> (string_fragment (escape p') chunk2 = Some (s, e) \<longrightarrow>
          (\<exists>p''. consume p' chunk2 = Some p'' \<and> in_string p'' \<and> \<not> expecting_colon p''
             \<and> stack p'' = stack p'
             \<and> current_string p'' = current_string p' @ s
             \<and> map_of (heap p'' ! a) k = Some (Str (current_string p' @ s))
             \<and> (\<exists>j. get p'' = Some j \<and> has_entry j k (JStr (current_string p' @ s)))))
     \<and> (\<forall>q q'. partial_value q = Some q' \<longrightarrow>
           in_string q' = in_string q \<and> current_string q' = current_string q)
     \<and> (\<not> in_string p \<and> stack p = (a0, Some k0) # rest0
          \<and> string_fragment False vs = Some (v, ev) \<longrightarrow>
          (\<exists>q. consume p (dquote # vs) = Some q \<and> in_string q \<and> \<not> expecting_colon q
             \<and> stack q = stack p \<and> escape q = ev
             \<and> current_string q = v
             \<and> map_of (heap q ! a0) k0 = Some (Str v)
             \<and> (\<exists>j. get q = Some j \<and> has_entry j k0 (JStr v))))"
proof -
  from r have w: "wf p" and b: "buffer p = []" by (simp_all add: reachable_wf)
  from r c have r': "reachable p'" by (rule reachable.consumed)
  then have w': "wf p'" and b': "buffer p' = []" by (simp_all add: reachable_wf)
  have entry: "map_of (heap p' ! a) k = Some (Str (current_string p'))"
    using w b c ins nec st by (rule exposed_entry)
  have snap: "\<exists>j. get p' = Some j \<and> has_entry j k (JStr (current_string p'))"
    using w' st entry by (rule exposed_snapshot)
  have extends: "\<exists>p''. consume p' chunk2 = Some p'' \<and> in_string p'' \<and> \<not> expecting_colon p''
             \<and> stack p'' = stack p'
             \<and> current_string p'' = current_string p' @ s
             \<and> map_of (heap p'' ! a) k = Some (Str (current_string p' @ s))
             \<and> (\<exists>j. get p'' = Some j \<and> has_entry j k (JStr (current_string p' @ s)))"
    if fr: "string_fragment (escape p') chunk2 = Some (s, e)"
  proof -
    let ?q = "p'\<lparr>current_string := current_string p' @ s, escape := e\<rparr>"
    let ?p'' = "?q\<lparr>heap := setitem (heap ?q) a k (Str (current_string ?q))\<rparr>"
    have "consume p' chunk2 = partial_value ?q"
      using b' ins fr by (rule consume_fragment)
    also have "\<dots> = Some ?p''"
      using ins nec st by (intro partial_value_pending) simp_all
    finally have c'': "consume p' chunk2 = Some ?p''" .
    with r' have "reachable ?p''" by (rule reachable.consumed)
    then have w'': "wf ?p''" by (simp add: reachable_wf)
    have st'': "stack ?p'' = (a, Some k) # rest" using st by simp
    have entry'': "map_of (heap ?p'' ! a) k = Some (Str (current_string ?p''))"
      using w' b' c'' _ _ st'' by (rule exposed_entry) (simp_all add: ins nec)
    have "\<exists>j. get ?p'' = Some j \<and> has_entry j k (JStr (current_string ?p''))"
      using w'' st'' entry'' by (rule exposed_snapshot)
    with c'' entry'' ins nec st show ?thesis by simp
  qed
  have keep: "\<forall>q q'. partial_value q = Some q' \<longrightarrow>
           in_string q' = in_string q \<and> current_string q' = current_string q"
    using partial_value_fields by blast
  have opens: "\<exists>q. consume p (dquote # vs) = Some q \<and> in_string q \<and> \<not> expecting_colon q
             \<and> stack q = stack p \<and> escape q = ev
             \<and> current_string q = v
             \<and> map_of (heap q ! a0) k0 = Some (Str v)
             \<and> (\<exists>j. get q = Some j \<and> has_entry j k0 (JStr v))"
    if nins: "\<not> in_string p" and st0: "stack p = (a0, Some k0) # rest0"
      and fr: "string_fragment False vs = Some (v, ev)"
  proof -
    let ?q = "p\<lparr>in_string := True, current_string := v, escape := ev,
                heap := setitem (heap p) a0 k0 (Str v)\<rparr>"
    from w nins have nec0: "\<not> expecting_colon p" by (simp add: wf_def flags_ok_def)
    have cq: "consume p (dquote # vs) = Some ?q"
      using w b nins st0 fr by (rule value_opens)
    with r have "reachable ?q" by (rule reachable.consumed)
    then have wq: "wf ?q" by (simp add: reachable_wf)
    have stq: "stack ?q = (a0, Some k0) # rest0" using st0 by simp
    have entryq: "map_of (heap ?q ! a0) k0 = Some (Str (current_string ?q))"
      using w b cq _ _ stq by (rule exposed_entry) (simp_all add: nec0)
    have "\<exists>j. get ?q = Some j \<and> has_entry j k0 (JStr (current_string ?q))"
      using wq stq entryq by (rule exposed_snapshot)
    with cq entryq nec0 st0 show ?thesis by simp
  qed
  from entry snap extends keep opens show ?thesis by blast
qed

theorem partial_value_exposure_witness:
  \<open>reachable (the (consume init ''{"foo": ''))
   \<and> \<not> in_string (the (consume init ''{"foo": ''))
   \<and> stack (the (consume init ''{"foo": '')) = [(0, Some ''foo'')]
   \<and> string_fragment False ''ba'' = Some (''ba'', False)
   \<and> (\<exists>p'. consume (the (consume init ''{"foo": '')) ''"ba'' = Some p'
          \<and> in_string p' \<and> \<not> expecting_colon p' \<and> stack p' = [(0, Some ''foo'')]
          \<and> map_of (heap p' ! 0) ''foo'' = Some (Str ''ba'')
          \<and> get p' = Some (JObj [(''foo'', JStr ''ba'')])
          \<and> string_fragment (escape p') ''r'' = Some (''r'', False)
          \<and> (\<exists>p''. consume p' ''r'' = Some p''
                 \<and> map_of (heap p'' ! 0) ''foo'' = Some (Str ''bar'')))\<close>
proof -
  let ?p = "\<lparr>buffer = [], heap = [[]], stack = [(0, Some ''foo'')],
             in_string = False, escape = False, current_string = [],
             expecting_colon = False\<rparr>"
  let ?p' = "\<lparr>buffer = [], heap = [[(''foo'', Str ''ba'')]], stack = [(0, Some ''foo'')],
             in_string = True, escape = False, current_string = ''ba'',
             expecting_colon = False\<rparr>"
  have c0: \<open>consume init ''{"foo": '' = Some ?p\<close>
    by (simp add: eval_defs)
  have r: "reachable ?p"
    using reachable.fresh c0 by (rule reachable.consumed)
  have c: \<open>consume ?p ''"ba'' = Some ?p'\<close>
    by (simp add: eval_defs)
  have g: "get ?p' = Some (JObj [(''foo'', JStr ''ba'')])" by (simp add: get_def)
  have "\<exists>q. consume ?p (dquote # ''ba'') = Some q \<and> map_of (heap q ! 0) ''foo'' = Some (Str ''ba'')"
    using partial_value_exposure [OF r c, of 0 "''foo''" "[]" "''r''" "''r''" False
        0 "''foo''" "[]" "''ba''" "''ba''" False]
    by simp blast
  moreover have "\<exists>p''. consume ?p' ''r'' = Some p''
                 \<and> map_of (heap p'' ! 0) ''foo'' = Some (Str ''bar'')"
    using partial_value_exposure [OF r c, of 0 "''foo''" "[]" "''r''" "''r''" False
        0 "''foo''" "[]" "''ba''" "''ba''" False]
    by simp blast
  ultimately show ?thesis
    using r g by (simp add: c0 c)
qed

section \<open>Keys in flight\<close>

lemma key_opens:
  assumes w: "wf p" and b: "buffer p = []" and nins: "\<not> in_string p"
    and key: "snd (hd (stack p)) = None" and fr: "string_fragment False ks = Some (s, e)"
  shows "consume p (dquote # ks)
       = Some (p\<lparr>in_string := True, expecting_colon := True, current_string := s, escape := e\<rparr>)"
proof -
  from w nins have fl: "\<not> expecting_colon p" "\<not> escape p" "current_string p = []"
    by (simp_all add: wf_def flags_ok_def)
  from w obtain a k rest where st: "stack p = (a, k) # rest" by (rule wf_stackE)
  let ?q = "p\<lparr>in_string := True, expecting_colon := True\<rparr>"
  have "step dquote p = Some ?q" using nins st key fl by (simp add: step_def)
  moreover have "parse_loop ks ?q = Some (?q\<lparr>current_string := current_string ?q @ s, escape := e\<rparr>)"
    using fr fl by (intro parse_loop_fragment) simp_all
  moreover have "partial_value (?q\<lparr>current_string := current_string ?q @ s, escape := e\<rparr>)
      = Some (?q\<lparr>current_string := current_string ?q @ s, escape := e\<rparr>)"
    by (rule partial_value_key) simp
  ultimately show ?thesis using b fl by (simp add: consume_empty_buffer)
qed

lemma key_continues:
  assumes b: "buffer p = []" and ins: "in_string p" and ec: "expecting_colon p"
    and fr: "string_fragment (escape p) ks = Some (s, e)"
  shows "consume p ks = Some (p\<lparr>current_string := current_string p @ s, escape := e\<rparr>)"
proof -
  have "consume p ks = partial_value (p\<lparr>current_string := current_string p @ s, escape := e\<rparr>)"
    using b ins fr by (rule consume_fragment)
  also have "\<dots> = Some (p\<lparr>current_string := current_string p @ s, escape := e\<rparr>)"
    using ec by (intro partial_value_key) simp
  finally show ?thesis .
qed

text \<open>
  C3. A partial key is never exposed. A quote that opens a key (outside a string, top frame
  without pending key), followed by characters that do not close it, leaves the store, the
  stack and the snapshot as they were; so does every further chunk that does not close the
  key. Whenever a call ends inside a key string, the block after the loop has assigned
  nothing: the parser is the one the loop left. In particular \<^verbatim>\<open>consume('{"foo')\<close> on a
  fresh parser gives the empty object.
\<close>

theorem partial_key_not_exposed:
  assumes r: "reachable p"
  shows \<open>(\<not> in_string p \<and> snd (hd (stack p)) = None \<and> string_fragment False ks = Some (s, e) \<longrightarrow>
            (\<exists>p'. consume p (dquote # ks) = Some p' \<and> in_string p' \<and> expecting_colon p'
               \<and> current_string p' = s
               \<and> heap p' = heap p \<and> stack p' = stack p \<and> get p' = get p))
     \<and> (in_string p \<and> expecting_colon p \<and> string_fragment (escape p) ks = Some (s, e) \<longrightarrow>
            (\<exists>p'. consume p ks = Some p' \<and> in_string p' \<and> expecting_colon p'
               \<and> current_string p' = current_string p @ s
               \<and> heap p' = heap p \<and> stack p' = stack p \<and> get p' = get p))
     \<and> (\<forall>chunk p'. consume p chunk = Some p' \<and> in_string p' \<and> expecting_colon p' \<longrightarrow>
            parse_loop chunk p = Some p')
     \<and> Option.bind (consume init ''{"foo'') get = Some (JObj [])\<close>
proof -
  from r have w: "wf p" and b: "buffer p = []" by (simp_all add: reachable_wf)
  have opens: "\<exists>p'. consume p (dquote # ks) = Some p' \<and> in_string p' \<and> expecting_colon p'
               \<and> current_string p' = s
               \<and> heap p' = heap p \<and> stack p' = stack p \<and> get p' = get p"
    if "\<not> in_string p" "snd (hd (stack p)) = None" "string_fragment False ks = Some (s, e)"
    using key_opens [OF w b that] by (simp add: get_def)
  have continues: "\<exists>p'. consume p ks = Some p' \<and> in_string p' \<and> expecting_colon p'
               \<and> current_string p' = current_string p @ s
               \<and> heap p' = heap p \<and> stack p' = stack p \<and> get p' = get p"
    if "in_string p" "expecting_colon p" "string_fragment (escape p) ks = Some (s, e)"
    using key_continues [OF b that] that by (simp add: get_def)
  have silent: "parse_loop chunk p = Some p'"
    if c: "consume p chunk = Some p'" and f: "in_string p'" "expecting_colon p'" for chunk p'
  proof -
    from c b obtain q where pl: "parse_loop chunk p = Some q" and pv: "partial_value q = Some p'"
      by (cases "parse_loop chunk p") (simp_all add: consume_empty_buffer)
    from partial_value_fields [OF pv] f have "in_string q" "expecting_colon q" by simp_all
    then have "partial_value q = Some q" by (intro partial_value_key) simp
    with pv pl show ?thesis by simp
  qed
  have ex: \<open>Option.bind (consume init ''{"foo'') get = Some (JObj [])\<close>
    by (simp add: eval_defs)
  from opens continues silent ex show ?thesis by blast
qed

theorem partial_key_not_exposed_witness:
  \<open>reachable init \<and> \<not> in_string init \<and> snd (hd (stack init)) = None
   \<and> string_fragment False ''fo'' = Some (''fo'', False)
   \<and> (\<exists>p'. consume init ''"fo'' = Some p' \<and> in_string p' \<and> expecting_colon p'
          \<and> get p' = Some (JObj []))\<close>
proof -
  have fr: "string_fragment False ''fo'' = Some (''fo'', False)" by simp
  have i: "\<not> in_string init" "snd (hd (stack init)) = None" "get init = Some (JObj [])"
    by (simp_all add: init_def get_def)
  from partial_key_not_exposed [OF reachable.fresh, of "''fo''" "''fo''" False] fr i
  show ?thesis
    using reachable.fresh by simp blast
qed

section \<open>Nested objects\<close>

lemma consume_open:
  assumes b: "buffer p = []" and nins: "\<not> in_string p" and st: "stack p = (a, Some k) # rest"
  shows "consume p ''{''
       = Some (p\<lparr>heap := setitem (heap p @ [[]]) a k (Ref (length (heap p))),
                  stack := (length (heap p), None) # (a, None) # rest\<rparr>)"
proof -
  let ?q = "p\<lparr>heap := setitem (heap p @ [[]]) a k (Ref (length (heap p))),
              stack := (length (heap p), None) # (a, None) # rest\<rparr>"
  have "step CHR ''{'' p = Some ?q" using nins st by (simp add: step_def Let_def)
  moreover have "partial_value ?q = Some ?q" using nins by (intro partial_value_key) simp
  ultimately show ?thesis using b by (simp add: consume_empty_buffer)
qed

lemma consume_open_no_key:
  assumes b: "buffer p = []" and nins: "\<not> in_string p" and st: "stack p = (a, None) # rest"
  shows "consume p ''{'' = Some p"
proof -
  have "step CHR ''{'' p = Some p" using nins st by (simp add: step_def)
  moreover have "partial_value p = Some p" using nins by (intro partial_value_key) simp
  ultimately show ?thesis using b by (simp add: consume_empty_buffer)
qed

lemma consume_close:
  assumes b: "buffer p = []" and nins: "\<not> in_string p"
  shows "consume p ''}''
       = Some (p\<lparr>stack := (if length (stack p) > 1 then tl (stack p) else stack p)\<rparr>)"
proof -
  let ?q = "p\<lparr>stack := (if length (stack p) > 1 then tl (stack p) else stack p)\<rparr>"
  have "step CHR ''}'' p = Some ?q" using nins by (simp add: step_def)
  moreover have "partial_value ?q = Some ?q" using nins by (intro partial_value_key) simp
  ultimately show ?thesis using b by (simp add: consume_empty_buffer)
qed

text \<open>
  C4. Nesting. Outside a string, an object-open token met while the top frame has a
  pending key allocates a new empty dictionary, stores it under that key, clears the key and
  pushes a frame for the new dictionary; the snapshot then has the empty object under that
  key. Without a pending key the token changes nothing. An object-close token pops exactly
  one frame, except that a stack of one frame stays as it is. And
  \<^verbatim>\<open>consume('{"outer": {"inner": "value')\<close> on a fresh parser gives
  \<^verbatim>\<open>{"outer": {"inner": "value"}}\<close>.
\<close>

theorem nesting:
  assumes r: "reachable p" and nins: "\<not> in_string p"
  shows \<open>(stack p = (a, Some k) # rest \<longrightarrow>
            (\<exists>p'. consume p ''{'' = Some p'
               \<and> map_of (heap p' ! a) k = Some (Ref (length (heap p)))
               \<and> heap p' ! length (heap p) = []
               \<and> length (heap p') = Suc (length (heap p))
               \<and> stack p' = (length (heap p), None) # (a, None) # rest
               \<and> (\<exists>j. get p' = Some j \<and> has_entry j k (JObj []))))
     \<and> (stack p = (a, None) # rest \<longrightarrow> consume p ''{'' = Some p)
     \<and> (\<exists>p'. consume p ''}'' = Some p' \<and> heap p' = heap p
            \<and> stack p' = (if length (stack p) > 1 then tl (stack p) else stack p)
            \<and> length (stack p') = (if length (stack p) > 1 then length (stack p) - 1 else 1))
     \<and> Option.bind (consume init ''{"outer": {"inner": "value'') get
          = Some (JObj [(''outer'', JObj [(''inner'', JStr ''value'')])])\<close>
proof -
  from r have w: "wf p" and b: "buffer p = []" by (simp_all add: reachable_wf)
  have opens: "\<exists>p'. consume p ''{'' = Some p'
               \<and> map_of (heap p' ! a) k = Some (Ref (length (heap p)))
               \<and> heap p' ! length (heap p) = []
               \<and> length (heap p') = Suc (length (heap p))
               \<and> stack p' = (length (heap p), None) # (a, None) # rest
               \<and> (\<exists>j. get p' = Some j \<and> has_entry j k (JObj []))"
    if st: "stack p = (a, Some k) # rest"
  proof -
    let ?n = "length (heap p)"
    let ?h = "setitem (heap p @ [[]]) a k (Ref ?n)"
    let ?p' = "p\<lparr>heap := ?h, stack := (?n, None) # (a, None) # rest\<rparr>"
    have c: "consume p ''{'' = Some ?p'" using b nins st by (rule consume_open)
    with r have "reachable ?p'" by (rule reachable.consumed)
    then have w': "wf ?p'" by (simp add: reachable_wf)
    from w st have a: "a < ?n" by (auto elim: wf_stackE)
    then have m: "map_of (?h ! a) k = Some (Ref ?n)" by (simp add: map_of_setitem)
    from a have new: "?h ! ?n = []" by (simp add: nth_setitem)
    have w'': "wf (?p'\<lparr>stack := (a, None) # rest\<rparr>)"
      using w' by (simp add: wf_def stack_ok_def flags_ok_def nins)
    from snapshot_has_entry [OF w'', of a None rest k "Ref ?n"] m
    obtain j m' jv where g: "get ?p' = Some j" and rv: "reify m' ?h (Ref ?n) = Some jv"
      and he: "has_entry j k jv" by (auto simp: get_def)
    from rv new have "jv = JObj []" by (cases m') (auto split: if_splits)
    with c m new g he show ?thesis by simp
  qed
  have no_key: "consume p ''{'' = Some p" if "stack p = (a, None) # rest"
    using b nins that by (rule consume_open_no_key)
  have closes: "\<exists>p'. consume p ''}'' = Some p' \<and> heap p' = heap p
            \<and> stack p' = (if length (stack p) > 1 then tl (stack p) else stack p)
            \<and> length (stack p') = (if length (stack p) > 1 then length (stack p) - 1 else 1)"
  proof -
    from w obtain fr rest' where "stack p = fr # rest'" by (rule wf_stackE) simp
    then have "length (if length (stack p) > 1 then tl (stack p) else stack p)
        = (if length (stack p) > 1 then length (stack p) - 1 else 1)" by simp
    with consume_close [OF b nins] show ?thesis by simp
  qed
  have ex: \<open>Option.bind (consume init ''{"outer": {"inner": "value'') get
          = Some (JObj [(''outer'', JObj [(''inner'', JStr ''value'')])])\<close>
    by (simp add: eval_defs)
  from opens no_key closes ex show ?thesis by blast
qed


theorem nesting_witness:
  \<open>reachable (the (consume init ''{"outer":''))
   \<and> \<not> in_string (the (consume init ''{"outer":''))
   \<and> stack (the (consume init ''{"outer":'')) = [(0, Some ''outer'')]
   \<and> (\<exists>p'. consume (the (consume init ''{"outer":'')) ''{'' = Some p'
          \<and> map_of (heap p' ! 0) ''outer'' = Some (Ref 1) \<and> heap p' ! 1 = []
          \<and> stack p' = [(1, None), (0, None)])
   \<and> (\<exists>p'. consume (the (consume init ''{"outer":'')) ''}'' = Some p'
          \<and> stack p' = [(0, Some ''outer'')])\<close>
proof -
  let ?p = "\<lparr>buffer = [], heap = [[]], stack = [(0, Some ''outer'')],
             in_string = False, escape = False, current_string = [],
             expecting_colon = False\<rparr>"
  have c: \<open>consume init ''{"outer":'' = Some ?p\<close>
    by (simp add: eval_defs)
  have r: "reachable ?p"
    using reachable.fresh c by (rule reachable.consumed)
  from nesting [OF r, of 0 "''outer''" "[]"] show ?thesis
    using r by (simp add: c) blast
qed

section \<open>Characters without effect\<close>

lemma parse_loop_skips:
  "\<not> in_string p \<Longrightarrow> \<forall>c \<in> set cs. c \<noteq> CHR ''{'' \<and> c \<noteq> CHR ''}'' \<and> c \<noteq> dquote \<Longrightarrow>
   parse_loop cs p = Some p"
proof (induction cs)
  case Nil
  show ?case by simp
next
  case (Cons c cs)
  then have "step c p = Some p" by (simp add: step_def)
  with Cons show ?case by simp
qed

text \<open>
  C7, as stated, says that every character of an array value outside a string is consumed
  with no effect and that the array produces no entry. The quotes and braces inside an
  array are not skipped: after \<^verbatim>\<open>{"a": \<close> the snapshot is empty, and the array
  \<^verbatim>\<open>["x"]\<close> changes the parser and leaves the entry \<^verbatim>\<open>"a": "x"\<close>.
\<close>

theorem array_value_counterexample:
  \<open>\<not> in_string (the (consume init ''{"a": ''))
   \<and> get (the (consume init ''{"a": '')) = Some (JObj [])
   \<and> consume (the (consume init ''{"a": '')) ''["x"]'' \<noteq> Some (the (consume init ''{"a": ''))
   \<and> get (the (consume (the (consume init ''{"a": '')) ''["x"]''))
       = Some (JObj [(''a'', JStr ''x'')])\<close>
  by (simp add: eval_defs)

text \<open>
  C7, amended. Outside a string, every character other than an object-open token, an
  object-close token and a double quote is consumed with no effect: a chunk of such
  characters leaves the parser, and so the result, exactly as it was. Numeric, boolean and
  null literals consist of such characters only, as do the brackets and commas of an array.
\<close>

theorem skipped_characters:
  assumes "reachable p" and "\<not> in_string p"
    and "\<forall>c \<in> set chunk. c \<noteq> CHR ''{'' \<and> c \<noteq> CHR ''}'' \<and> c \<noteq> dquote"
  shows "consume p chunk = Some p"
proof -
  from assms(1) have b: "buffer p = []" by (simp add: reachable_wf)
  have "parse_loop chunk p = Some p" using assms(2,3) by (rule parse_loop_skips)
  moreover have "partial_value p = Some p" using assms(2) by (intro partial_value_key) simp
  ultimately show ?thesis using b by (simp add: consume_empty_buffer)
qed

theorem skipped_characters_witness:
  \<open>reachable (the (consume init ''{"n":''))
   \<and> \<not> in_string (the (consume init ''{"n":''))
   \<and> consume (the (consume init ''{"n":'')) '' [-12.5e3, true, false, null]''
       = Some (the (consume init ''{"n":''))\<close>
proof -
  let ?p = "\<lparr>buffer = [], heap = [[]], stack = [(0, Some ''n'')],
             in_string = False, escape = False, current_string = [],
             expecting_colon = False\<rparr>"
  have c: \<open>consume init ''{"n":'' = Some ?p\<close>
    by (simp add: eval_defs)
  have r: "reachable ?p"
    using reachable.fresh c by (rule reachable.consumed)
  have n: "\<not> in_string ?p" by simp
  have cs: \<open>\<forall>c \<in> set '' [-12.5e3, true, false, null]''. c \<noteq> CHR ''{'' \<and> c \<noteq> CHR ''}'' \<and> c \<noteq> dquote\<close>
    by simp
  from skipped_characters [OF r n cs] r cs show ?thesis
    by (simp only: c option.sel n) simp
qed

section \<open>Escapes\<close>

text \<open>
  C8. Escape handling: in a string with no escape pending, a backslash appends nothing and
  sets \<^verbatim>\<open>escape\<close>; the next character, whatever it is (a double quote and a backslash
  included), is appended as it is and \<^verbatim>\<open>escape\<close> is cleared. So the backslash is dropped
  and no escape sequence is interpreted. This holds for the two iterations of the loop, and
  for two calls of \<^verbatim>\<open>consume\<close> with the chunk boundary between the two characters.
\<close>

theorem escape_handling:
  assumes ins: "in_string p" and ne: "\<not> escape p"
  shows "step backslash p = Some (p\<lparr>escape := True\<rparr>)
     \<and> step c (p\<lparr>escape := True\<rparr>)
         = Some (p\<lparr>current_string := current_string p @ [c], escape := False\<rparr>)
     \<and> parse_loop [backslash, c] p
         = Some (p\<lparr>current_string := current_string p @ [c], escape := False\<rparr>)
     \<and> (reachable p \<longrightarrow>
          (\<exists>q. consume p [backslash] = Some q \<and> in_string q \<and> escape q
             \<and> current_string q = current_string p
             \<and> (\<exists>r. consume q [c] = Some r \<and> in_string r \<and> \<not> escape r
                    \<and> current_string r = current_string p @ [c])))"
proof -
  have s1: "step backslash p = Some (p\<lparr>escape := True\<rparr>)"
    using ins ne by (simp add: step_def)
  have s2: "step c (p\<lparr>escape := True\<rparr>)
         = Some (p\<lparr>current_string := current_string p @ [c], escape := False\<rparr>)"
    using ins by (simp add: step_def)
  have s3: "parse_loop [backslash, c] p
         = Some (p\<lparr>current_string := current_string p @ [c], escape := False\<rparr>)"
    using s1 s2 by simp
  have s4: "\<exists>q. consume p [backslash] = Some q \<and> in_string q \<and> escape q
             \<and> current_string q = current_string p
             \<and> (\<exists>r. consume q [c] = Some r \<and> in_string r \<and> \<not> escape r
                    \<and> current_string r = current_string p @ [c])" if r: "reachable p"
  proof -
    from r have w: "wf p" and b: "buffer p = []" by (simp_all add: reachable_wf)
    from wf_consume [OF w] obtain q where cq: "consume p [backslash] = Some q"
      and wq: "wf q" and bq: "buffer q = []" by blast
    have "consume p [backslash] = partial_value (p\<lparr>current_string := current_string p @ [], escape := True\<rparr>)"
      using b ins by (rule consume_fragment) (simp add: ne)
    with cq have "partial_value (p\<lparr>current_string := current_string p @ [], escape := True\<rparr>) = Some q"
      by simp
    from partial_value_fields [OF this] ins
    have q: "in_string q" "escape q" "current_string q = current_string p" by simp_all
    from wf_consume [OF wq] obtain r' where cr: "consume q [c] = Some r'" by blast
    have "consume q [c] = partial_value (q\<lparr>current_string := current_string q @ [c], escape := False\<rparr>)"
      using bq q(1) by (rule consume_fragment) (simp add: q(2))
    with cr have "partial_value (q\<lparr>current_string := current_string q @ [c], escape := False\<rparr>) = Some r'"
      by simp
    from partial_value_fields [OF this] q
    have "in_string r'" "\<not> escape r'" "current_string r' = current_string p @ [c]" by simp_all
    with cq cr q show ?thesis by blast
  qed
  from s1 s2 s3 s4 show ?thesis by blast
qed

theorem escape_handling_witness:
  \<open>reachable (the (consume init ''{"k": "a''))
   \<and> in_string (the (consume init ''{"k": "a''))
   \<and> \<not> escape (the (consume init ''{"k": "a''))
   \<and> (\<exists>q. consume (the (consume init ''{"k": "a'')) [backslash] = Some q \<and> escape q
          \<and> current_string q = ''a''
          \<and> (\<exists>r. consume q [dquote] = Some r \<and> in_string r \<and> \<not> escape r
                 \<and> current_string r = ''a"''))\<close>
proof -
  let ?p = "\<lparr>buffer = [], heap = [[(''k'', Str ''a'')]], stack = [(0, Some ''k'')],
             in_string = True, escape = False, current_string = ''a'',
             expecting_colon = False\<rparr>"
  have c: \<open>consume init ''{"k": "a'' = Some ?p\<close>
    by (simp add: eval_defs)
  have r: "reachable ?p"
    using reachable.fresh c by (rule reachable.consumed)
  from escape_handling [of ?p dquote] r show ?thesis
    by (simp add: c) blast
qed

section \<open>Members\<close>

lemma parse_loop_string:
  assumes "in_string q" and "\<not> escape q" and "string_fragment False cs = Some (s, False)"
  shows "parse_loop (cs @ dquote # tail) q
       = Option.bind (step dquote (q\<lparr>current_string := current_string q @ s, escape := False\<rparr>))
           (parse_loop tail)"
proof -
  have "parse_loop cs q = Some (q\<lparr>current_string := current_string q @ s, escape := False\<rparr>)"
    using assms by (intro parse_loop_fragment) simp_all
  then show ?thesis by (simp add: parse_loop_append)
qed

lemma parse_loop_member:
  assumes nins: "\<not> in_string p" and nec: "\<not> expecting_colon p" and ne: "\<not> escape p"
    and cur: "current_string p = []" and st: "stack p = (a, None) # rest"
    and ks: "string_fragment False ks = Some (key, False)"
    and vs: "string_fragment False vs = Some (val, False)"
  shows "parse_loop (dquote # ks @ dquote # CHR '':'' # dquote # vs @ [dquote]) p
       = Some (p\<lparr>heap := setitem (heap p) a key (Str val)\<rparr>)"
proof -
  let ?q1 = "p\<lparr>in_string := True, expecting_colon := True\<rparr>"
  let ?q2 = "?q1\<lparr>current_string := current_string ?q1 @ key, escape := False\<rparr>"
  let ?q3 = "p\<lparr>stack := (a, Some key) # rest\<rparr>"
  let ?q4 = "?q3\<lparr>in_string := True\<rparr>"
  let ?q5 = "?q4\<lparr>current_string := current_string ?q4 @ val, escape := False\<rparr>"
  let ?q6 = "p\<lparr>heap := setitem (heap p) a key (Str val)\<rparr>"
  have 1: "step dquote p = Some ?q1" using nins nec st by (simp add: step_def)
  have "step dquote ?q2 = Some (?q2\<lparr>in_string := False, stack := (a, Some key) # rest,
            expecting_colon := False, current_string := []\<rparr>)"
    using st cur by (simp add: step_def)
  also have "?q2\<lparr>in_string := False, stack := (a, Some key) # rest,
            expecting_colon := False, current_string := []\<rparr> = ?q3"
    using nins nec ne cur by (intro parser.equality) simp_all
  finally have 3: "step dquote ?q2 = Some ?q3" .
  have 4: "step CHR '':'' ?q3 = Some ?q3" using nins by (simp add: step_def)
  have 5: "step dquote ?q3 = Some ?q4" using nins nec by (simp add: step_def)
  have "step dquote ?q5 = Some (?q5\<lparr>in_string := False,
            heap := setitem (heap p) a key (Str val), stack := (a, None) # rest,
            current_string := []\<rparr>)"
    using nec cur by (simp add: step_def)
  also have "?q5\<lparr>in_string := False, heap := setitem (heap p) a key (Str val),
            stack := (a, None) # rest, current_string := []\<rparr> = ?q6"
    using nins ne cur st by (intro parser.equality) simp_all
  finally have 7: "step dquote ?q5 = Some ?q6" .
  have "parse_loop (dquote # ks @ dquote # CHR '':'' # dquote # vs @ [dquote]) p
      = parse_loop (ks @ dquote # CHR '':'' # dquote # vs @ [dquote]) ?q1"
    using 1 by simp
  also have "\<dots> = Option.bind (step dquote ?q2) (parse_loop (CHR '':'' # dquote # vs @ [dquote]))"
    using ks ne by (intro parse_loop_string) simp_all
  also have "\<dots> = parse_loop (vs @ [dquote]) ?q4"
    using 3 4 5 by simp
  also have "\<dots> = Option.bind (step dquote ?q5) (parse_loop [])"
    using vs ne by (intro parse_loop_string) simp_all
  also have "\<dots> = Some ?q6" using 7 by simp
  finally show ?thesis .
qed

text \<open>
  C10. Duplicate keys overwrite. Outside a string and with no pending key, a member
  \<^verbatim>\<open>"key":"val"\<close> (key and value without closing quote inside, and not ending in a
  pending escape) sets \<open>key\<close> to \<open>val\<close> in the dictionary of the top frame, whether
  or not the key was there: afterwards the key has that value, the keys are distinct (one
  entry for the key), a key present before keeps its place and an absent one is appended,
  and the other entries are as before. And \<^verbatim>\<open>consume('{"a": "x", "a": "y"}')\<close> on a
  fresh parser gives \<^verbatim>\<open>{"a": "y"}\<close>.
\<close>

theorem duplicate_keys_overwrite:
  assumes r: "reachable p" and nins: "\<not> in_string p" and st: "stack p = (a, None) # rest"
    and ks: "string_fragment False ks = Some (key, False)"
    and vs: "string_fragment False vs = Some (val, False)"
  shows \<open>(\<exists>p'. consume p (dquote # ks @ dquote # CHR '':'' # dquote # vs @ [dquote]) = Some p'
            \<and> map_of (heap p' ! a) key = Some (Str val)
            \<and> distinct (map fst (heap p' ! a))
            \<and> map fst (heap p' ! a)
                = (if key \<in> set (map fst (heap p ! a)) then map fst (heap p ! a)
                   else map fst (heap p ! a) @ [key])
            \<and> (\<forall>k'. k' \<noteq> key \<longrightarrow> map_of (heap p' ! a) k' = map_of (heap p ! a) k')
            \<and> stack p' = stack p)
     \<and> Option.bind (consume init ''{"a": "x", "a": "y"}'') get = Some (JObj [(''a'', JStr ''y'')])\<close>
proof -
  from r have w: "wf p" and b: "buffer p = []" by (simp_all add: reachable_wf)
  from w nins have fl: "\<not> expecting_colon p" "\<not> escape p" "current_string p = []"
    by (simp_all add: wf_def flags_ok_def)
  from w st have a: "a < length (heap p)" by (auto elim: wf_stackE)
  from w a have d: "distinct (map fst (heap p ! a))"
    by (simp add: wf_def heap_ok_def dict_ok_def)
  let ?p' = "p\<lparr>heap := setitem (heap p) a key (Str val)\<rparr>"
  have "parse_loop (dquote # ks @ dquote # CHR '':'' # dquote # vs @ [dquote]) p = Some ?p'"
    using nins fl st ks vs by (rule parse_loop_member)
  moreover have "partial_value ?p' = Some ?p'" using nins by (intro partial_value_key) simp
  ultimately have c: "consume p (dquote # ks @ dquote # CHR '':'' # dquote # vs @ [dquote]) = Some ?p'"
    using b by (simp add: consume_empty_buffer)
  let ?d = "setitem (heap p) a key (Str val) ! a"
  have h: "?d = AList.update key (Str val) (heap p ! a)" using a by (simp add: nth_setitem)
  have 1: "map_of ?d key = Some (Str val)" by (simp only: h update_conv') simp
  have 2: "distinct (map fst ?d)" using d by (simp only: h distinct_update)
  have 3: "map fst ?d
                = (if key \<in> set (map fst (heap p ! a)) then map fst (heap p ! a)
                   else map fst (heap p ! a) @ [key])"
    by (simp only: h update_keys)
  have 4: "\<forall>k'. k' \<noteq> key \<longrightarrow> map_of ?d k' = map_of (heap p ! a) k'"
    by (simp only: h update_conv') simp
  have 5: \<open>Option.bind (consume init ''{"a": "x", "a": "y"}'') get = Some (JObj [(''a'', JStr ''y'')])\<close>
    by (simp add: eval_defs)
  have "heap ?p' ! a = ?d" "stack ?p' = stack p" by simp_all
  with c 1 2 3 4 have main: "\<exists>p'. consume p (dquote # ks @ dquote # CHR '':'' # dquote # vs @ [dquote]) = Some p'
            \<and> map_of (heap p' ! a) key = Some (Str val)
            \<and> distinct (map fst (heap p' ! a))
            \<and> map fst (heap p' ! a)
                = (if key \<in> set (map fst (heap p ! a)) then map fst (heap p ! a)
                   else map fst (heap p ! a) @ [key])
            \<and> (\<forall>k'. k' \<noteq> key \<longrightarrow> map_of (heap p' ! a) k' = map_of (heap p ! a) k')
            \<and> stack p' = stack p"
    by (intro exI [of _ ?p']) (simp only: simp_thms)
  from main 5 show ?thesis by (rule conjI)
qed

theorem duplicate_keys_overwrite_witness:
  \<open>reachable (the (consume init ''{"a": "x", "b": "z",''))
   \<and> \<not> in_string (the (consume init ''{"a": "x", "b": "z",''))
   \<and> stack (the (consume init ''{"a": "x", "b": "z",'')) = [(0, None)]
   \<and> heap (the (consume init ''{"a": "x", "b": "z",'')) ! 0 = [(''a'', Str ''x''), (''b'', Str ''z'')]
   \<and> string_fragment False ''a'' = Some (''a'', False)
   \<and> string_fragment False ''y'' = Some (''y'', False)
   \<and> (\<exists>p'. consume (the (consume init ''{"a": "x", "b": "z",'')) ''"a":"y"'' = Some p'
          \<and> map_of (heap p' ! 0) ''a'' = Some (Str ''y'')
          \<and> map fst (heap p' ! 0) = [''a'', ''b''])\<close>
proof -
  let ?p = "\<lparr>buffer = [], heap = [[(''a'', Str ''x''), (''b'', Str ''z'')]], stack = [(0, None)],
             in_string = False, escape = False, current_string = [],
             expecting_colon = False\<rparr>"
  have c: \<open>consume init ''{"a": "x", "b": "z",'' = Some ?p\<close>
    by (simp add: eval_defs)
  have r: "reachable ?p"
    using reachable.fresh c by (rule reachable.consumed)
  have n: "\<not> in_string ?p" and st: "stack ?p = (0, None) # []" by simp_all
  have ks: "string_fragment False ''a'' = Some (''a'', False)" by simp
  have vs: "string_fragment False ''y'' = Some (''y'', False)" by simp
  have e: \<open>dquote # ''a'' @ dquote # CHR '':'' # dquote # ''y'' @ [dquote] = ''"a":"y"''\<close>
    by simp
  have "\<exists>p'. consume ?p (dquote # ''a'' @ dquote # CHR '':'' # dquote # ''y'' @ [dquote]) = Some p'
            \<and> map_of (heap p' ! 0) ''a'' = Some (Str ''y'')
            \<and> distinct (map fst (heap p' ! 0))
            \<and> map fst (heap p' ! 0)
                = (if ''a'' \<in> set (map fst (heap ?p ! 0)) then map fst (heap ?p ! 0)
                   else map fst (heap ?p ! 0) @ [''a''])
            \<and> (\<forall>k'. k' \<noteq> ''a'' \<longrightarrow> map_of (heap p' ! 0) k' = map_of (heap ?p ! 0) k')
            \<and> stack p' = stack ?p"
    using duplicate_keys_overwrite [OF r n st ks vs] by (rule conjunct1)
  then obtain p' where 1: \<open>consume ?p ''"a":"y"'' = Some p'\<close>
    and 2: "map_of (heap p' ! 0) ''a'' = Some (Str ''y'')"
    and 3: "map fst (heap p' ! 0)
                = (if ''a'' \<in> set (map fst (heap ?p ! 0)) then map fst (heap ?p ! 0)
                   else map fst (heap ?p ! 0) @ [''a''])"
    unfolding e by (elim exE conjE)
  from 3 have 4: "map fst (heap p' ! 0) = [''a'', ''b'']" by simp
  from 1 2 4 have \<open>\<exists>p'. consume ?p ''"a":"y"'' = Some p'
          \<and> map_of (heap p' ! 0) ''a'' = Some (Str ''y'')
          \<and> map fst (heap p' ! 0) = [''a'', ''b'']\<close> by (intro exI [of _ p'] conjI)
  with r show ?thesis by (simp only: c option.sel) simp
qed

end
